theory Spec2Isabelle
  imports Complex_Main "HOL-Library.Multiset"
begin

section \<open>Python values used by the notebook\<close>

text \<open>
  The notebook \<^verbatim>\<open>notebooks/llmu/Fine_Tuning_for_Rerank.ipynb\<close> is a straight-line data
  pipeline. A Python \<^verbatim>\<open>str\<close> is a sequence of Unicode code points, so it is modelled as a
  list of naturals; \<open>ascii\<close> turns an ASCII literal of the source into such a list.
  Text that is ASCII by construction (the output of \<^verbatim>\<open>json.dumps\<close>, the decimal form of an
  integer) is a \<open>string\<close>.
\<close>

type_synonym pystr = "nat list"

definition ascii :: "string \<Rightarrow> pystr" where
  "ascii s = map of_char s"

datatype py_error =
    KeyError | ValueError | TypeError | IndexError | ZeroDivisionError
  | IsADirectoryError | JSONDecodeError | InvalidLineError | RecursionError
  | NotModelled

text \<open>
  The value of one dataset cell: \<^verbatim>\<open>None\<close>, an integer or a text. The label column of the
  corpus is read both through \<^verbatim>\<open>"holding_{}".format(...)\<close> and through \<^verbatim>\<open>int(...)\<close>, which
  work on an integer and on a text alike, so both are kept.
\<close>

datatype atom = ANone | AInt int | AStr pystr

text \<open>An exception ends the computation it is raised in: the error is passed on.\<close>

definition bind_res :: "py_error + 'a \<Rightarrow> ('a \<Rightarrow> py_error + 'b) \<Rightarrow> py_error + 'b" where
  "bind_res m f = (case m of Inl e \<Rightarrow> Inl e | Inr x \<Rightarrow> f x)"

subsection \<open>str() and int()\<close>

definition digit_char :: "nat \<Rightarrow> char" where
  "digit_char n = ''0123456789'' ! n"

function str_nat :: "nat \<Rightarrow> string" where
  "str_nat n = (if n < 10 then [digit_char n] else str_nat (n div 10) @ [digit_char (n mod 10)])"
  by pat_completeness auto
termination
  by (relation "measure id") auto

declare str_nat.simps [simp del]

definition str_int :: "int \<Rightarrow> string" where
  "str_int n = (if n < 0 then CHR ''-'' # str_nat (nat (- n)) else str_nat (nat n))"

text \<open>
  CPython 3.11 (the notebook's kernel) refuses to convert between \<^verbatim>\<open>int\<close> and \<^verbatim>\<open>str\<close> when
  more than 4300 decimal digits are involved, raising \<^verbatim>\<open>ValueError\<close>.
\<close>

definition int_max_str_digits :: nat where
  "int_max_str_digits = 4300"

text \<open>\<^verbatim>\<open>"{}".format(v)\<close>, that is \<^verbatim>\<open>str(v)\<close> for the three kinds of cell.\<close>

definition py_format :: "atom \<Rightarrow> py_error + pystr" where
  "py_format v =
     (case v of
        ANone \<Rightarrow> Inr (ascii ''None'')
      | AInt n \<Rightarrow>
          (if int_max_str_digits < length (str_nat (nat \<bar>n\<bar>)) then Inl ValueError
           else Inr (ascii (str_int n)))
      | AStr s \<Rightarrow> Inr s)"

text \<open>
  \<^verbatim>\<open>int(s)\<close> on a text, as CPython 3.11 does it. The text is first brought to ASCII: a
  character below 127 is kept, a Unicode whitespace beyond ASCII becomes a space, a decimal
  digit of any script becomes the ASCII digit of its value, and any other character becomes a
  question mark, at which the buffer ends (a text that is ASCII already is taken as it is).
  The buffer is then read as leading whitespace, one optional sign, decimal digits in which a
  single underscore may stand between two digits, and trailing whitespace; whitespace is here
  that of C, the characters 9 to 13 and the space, so that the separators 28 to 31, which
  \<^verbatim>\<open>str.isspace\<close> accepts, are not dropped.
\<close>

definition c_isspace :: "nat \<Rightarrow> bool" where
  "c_isspace c = (c = 32 \<or> (9 \<le> c \<and> c \<le> 13))"

definition unicode_space :: "nat \<Rightarrow> bool" where
  "unicode_space c =
     (c = 133 \<or> c = 160 \<or> c = 5760 \<or> (8192 \<le> c \<and> c \<le> 8202) \<or> c = 8232 \<or> c = 8233 \<or>
      c = 8239 \<or> c = 8287 \<or> c = 12288)"

text \<open>
  The decimal digits of Unicode 14.0, the version of CPython 3.11: each code point listed is
  a digit zero and is followed by the digits one to nine of its script.
\<close>

definition decimal_zeros :: "nat list" where
  "decimal_zeros =
     [48, 1632, 1776, 1984, 2406, 2534, 2662, 2790,
      2918, 3046, 3174, 3302, 3430, 3558, 3664, 3792,
      3872, 4160, 4240, 6112, 6160, 6470, 6608, 6784,
      6800, 6992, 7088, 7232, 7248, 42528, 43216, 43264,
      43472, 43504, 43600, 44016, 65296, 66720, 68912, 69734,
      69872, 69942, 70096, 70384, 70736, 70864, 71248, 71360,
      71472, 71904, 72016, 72784, 73040, 73120, 92768, 92864,
      93008, 120782, 120792, 120802, 120812, 120822, 123200, 123632,
      125264, 130032]"

definition to_decimal :: "nat \<Rightarrow> nat option" where
  "to_decimal c =
     (case filter (\<lambda>z. z \<le> c \<and> c \<le> z + 9) decimal_zeros of
        [] \<Rightarrow> None
      | z # _ \<Rightarrow> Some (c - z))"

fun transform_chars :: "pystr \<Rightarrow> pystr" where
  "transform_chars [] = []"
| "transform_chars (c # cs) =
     (if c < 127 then c # transform_chars cs
      else if unicode_space c then 32 # transform_chars cs
      else (case to_decimal c of
              None \<Rightarrow> [63]
            | Some d \<Rightarrow> (48 + d) # transform_chars cs))"

definition decimal_and_space_to_ascii :: "pystr \<Rightarrow> pystr" where
  "decimal_and_space_to_ascii s = (if list_all (\<lambda>c. c < 128) s then s else transform_chars s)"

definition is_digit :: "nat \<Rightarrow> bool" where
  "is_digit c = (48 \<le> c \<and> c \<le> 57)"

text \<open>
  \<open>digits_value acc prev_digit s\<close> reads digits and underscores; \<open>prev_digit\<close> says whether the
  previous character was a digit, which an underscore and the end of the text require.
\<close>

fun digits_value :: "nat \<Rightarrow> bool \<Rightarrow> pystr \<Rightarrow> nat option" where
  "digits_value acc prev_digit [] = (if prev_digit then Some acc else None)"
| "digits_value acc prev_digit (c # cs) =
     (if is_digit c then digits_value (10 * acc + (c - 48)) True cs
      else if c = 95 \<and> prev_digit then digits_value acc False cs
      else None)"

definition py_int_str :: "pystr \<Rightarrow> py_error + int" where
  "py_int_str s =
     (let buffer = decimal_and_space_to_ascii s;
          t = dropWhile c_isspace buffer;
          neg = (t \<noteq> [] \<and> hd t = 45);
          signed = (if t \<noteq> [] \<and> (hd t = 45 \<or> hd t = 43) then tl t else t);
          body = rev (dropWhile c_isspace (rev signed))
      in case digits_value 0 False body of
           None \<Rightarrow> Inl ValueError
         | Some n \<Rightarrow>
             (if int_max_str_digits < length (filter is_digit body) then Inl ValueError
              else Inr (if neg then - int n else int n)))"

definition py_int :: "atom \<Rightarrow> py_error + int" where
  "py_int v =
     (case v of
        ANone \<Rightarrow> Inl TypeError
      | AInt n \<Rightarrow> Inr n
      | AStr s \<Rightarrow> py_int_str s)"

section \<open>Record shaping\<close>

text \<open>
  A raw example is the dictionary the dataset yields; \<^verbatim>\<open>example[k]\<close> raises \<^verbatim>\<open>KeyError\<close> on a
  missing key and \<^verbatim>\<open>example.get(k)\<close> gives \<^verbatim>\<open>None\<close> instead.
\<close>

type_synonym example = "pystr \<rightharpoonup> atom"

definition getitem :: "example \<Rightarrow> pystr \<Rightarrow> py_error + atom" where
  "getitem example k = (case example k of None \<Rightarrow> Inl KeyError | Some v \<Rightarrow> Inr v)"

definition get_or_none :: "example \<Rightarrow> pystr \<Rightarrow> atom" where
  "get_or_none example k = (case example k of None \<Rightarrow> ANone | Some v \<Rightarrow> v)"

definition num_examples :: nat where
  "num_examples = 420"

definition all_labels :: "pystr list" where
  "all_labels = map (\<lambda>s. ascii ''holding_'' @ ascii s) [''0'', ''1'', ''2'', ''3'', ''4'']"

record normalized =
  query :: atom
  docs :: "atom list"
  label :: int
  relevant_passages :: "atom list"
  hard_negatives :: "atom list"

text \<open>
  The body of the loop. Python evaluates the two assignments and then the entries of the
  dictionary display in the order written, so the first failing lookup or conversion decides
  the exception.
\<close>

definition shape_example :: "example \<Rightarrow> py_error + normalized" where
  "shape_example example =
     bind_res (getitem example (ascii ''label'')) (\<lambda>lbl.
     bind_res (py_format lbl) (\<lambda>suffix.
       let selected_passage_idx = ascii ''holding_'' @ suffix;
           hard_negatives_idx = filter (\<lambda>x. x \<noteq> selected_passage_idx) all_labels
       in
     bind_res (getitem example (ascii ''citing_prompt'')) (\<lambda>q.
       let ds = map (get_or_none example) all_labels in
     bind_res (py_int lbl) (\<lambda>l.
     bind_res (getitem example selected_passage_idx) (\<lambda>rp.
       Inr \<lparr>query = q, docs = ds, label = l, relevant_passages = [rp],
            hard_negatives = map (get_or_none example) hard_negatives_idx\<rparr>)))))"

text \<open>The loop over \<^verbatim>\<open>iterable_dataset.take(num_examples)\<close>, appending to \<^verbatim>\<open>d\<close>.\<close>

fun shape_loop :: "example list \<Rightarrow> normalized list \<Rightarrow> py_error + normalized list" where
  "shape_loop [] d = Inr d"
| "shape_loop (example # rest) d =
     (case shape_example example of
        Inl e \<Rightarrow> Inl e
      | Inr r \<Rightarrow> shape_loop rest (d @ [r]))"

definition shape_dataset :: "example list \<Rightarrow> py_error + normalized list" where
  "shape_dataset iterable_dataset = shape_loop (take num_examples iterable_dataset) []"

text \<open>
  The label cell \<open>v\<close> denotes the candidate index \<open>i\<close>: it is the integer itself or its decimal
  text, the two forms the label column takes. (A text such as \<^verbatim>\<open>" 3"\<close> or \<^verbatim>\<open>"03"\<close>, or a three
  in the digits of another script, converts to 3 with \<^verbatim>\<open>int\<close> but names no field of the
  example; the corpus has no such label.)
\<close>

definition label_index :: "atom \<Rightarrow> int \<Rightarrow> bool" where
  "label_index v i = (v = AInt i \<or> v = AStr (ascii (str_int i)))"

text \<open>
  A raw example of the corpus has five candidate fields \<^verbatim>\<open>holding_0\<close> .. \<^verbatim>\<open>holding_4\<close> and no
  other field whose name starts with \<^verbatim>\<open>holding_\<close>.
\<close>

definition raw_example :: "example \<Rightarrow> bool" where
  "raw_example example =
     (\<forall>k\<in>dom example. take 8 k = ascii ''holding_'' \<longrightarrow> k \<in> set all_labels)"

text \<open>A small raw example, used to run the definitions.\<close>

definition sample_example :: example where
  "sample_example =
     [ascii ''citing_prompt'' \<mapsto> AStr (ascii ''which holding''),
      ascii ''label'' \<mapsto> AStr (ascii ''3''),
      ascii ''holding_0'' \<mapsto> AStr (ascii ''a''),
      ascii ''holding_1'' \<mapsto> AStr (ascii ''b''),
      ascii ''holding_2'' \<mapsto> AStr (ascii ''c''),
      ascii ''holding_3'' \<mapsto> AStr (ascii ''d''),
      ascii ''holding_4'' \<mapsto> AStr (ascii ''e'')]"


section \<open>Train, validation and test split\<close>

text \<open>
  \<^verbatim>\<open>pd.DataFrame(d)\<close> numbers the rows 0, 1, ... (its index); a slice keeps the index of the
  rows it takes. A table is the list of its rows, each with its index; the cells of a row are
  the values the row was built from.
\<close>

type_synonym 'r dataframe = "(nat \<times> 'r) list"

definition DataFrame :: "'r list \<Rightarrow> 'r dataframe" where
  "DataFrame d = zip [0..<length d] d"

text \<open>
  Python's slice \<^verbatim>\<open>xs[start:stop]\<close> (which \<^verbatim>\<open>df[start:stop]\<close> is on the rows of a table): a bound
  left out is \<^verbatim>\<open>None\<close>, a negative bound counts from the end, and bounds are clamped to the
  length.
\<close>

definition slice_bound :: "nat \<Rightarrow> int \<Rightarrow> nat" where
  "slice_bound n i = (if i < 0 then nat (max 0 (int n + i)) else min n (nat i))"

definition py_slice :: "'a list \<Rightarrow> int option \<Rightarrow> int option \<Rightarrow> 'a list" where
  "py_slice xs start stop =
     (let n = length xs;
          lo = (case start of None \<Rightarrow> 0 | Some i \<Rightarrow> slice_bound n i);
          hi = (case stop of None \<Rightarrow> n | Some j \<Rightarrow> slice_bound n j)
      in take (hi - lo) (drop lo xs))"

definition train_num :: int where "train_num = 256"
definition valid_num :: int where "valid_num = 154"
definition test_num :: int where "test_num = 10"

text \<open>
  The three slices \<^verbatim>\<open>df[:train_num]\<close>, \<^verbatim>\<open>df[train_num:train_num+valid_num]\<close> and
  \<^verbatim>\<open>df[train_num+valid_num:]\<close> (\<^verbatim>\<open>.copy()\<close> changes no value). The source sets \<^verbatim>\<open>test_num\<close> and
  never reads it: the test slice runs to the end of the table.
\<close>

definition train_valid_test_split ::
  "int \<Rightarrow> int \<Rightarrow> int \<Rightarrow> 'r dataframe \<Rightarrow> 'r dataframe \<times> 'r dataframe \<times> 'r dataframe" where
  "train_valid_test_split train valid test df =
     (py_slice df None (Some train),
      py_slice df (Some train) (Some (train + valid)),
      py_slice df (Some (train + valid)) None)"

text \<open>The index labels of a table.\<close>

definition row_index :: "'r dataframe \<Rightarrow> nat set" where
  "row_index df = fst ` set df"

section \<open>Evaluation against the ranking service\<close>

text \<open>
  The request \<^verbatim>\<open>co.rerank(model=..., query=..., documents=..., top_n=1)\<close> and one entry of
  \<^verbatim>\<open>response.results\<close>. The relevance score is a float the notebook never reads.
\<close>

record rerank_request =
  model :: pystr
  rerank_query :: atom
  documents :: "atom list"
  top_n :: nat

record rerank_result =
  index :: int
  relevance_score :: rat

text \<open>
  The ranking service is outside the repository: it is a parameter, a function of the
  request and of the state \<open>'w\<close> of the world that answers with the result list or raises.
  A session records every call made, with its response, beside that state.
\<close>

type_synonym 'w client = "rerank_request \<Rightarrow> 'w \<Rightarrow> (py_error + rerank_result list) \<times> 'w"

record 'w session =
  calls :: "(rerank_request \<times> (py_error + rerank_result list)) list"
  world :: 'w

definition baseline_model :: pystr where
  "baseline_model = ascii ''rerank-english-v3.0''"

definition fine_tuned_model :: pystr where
  "fine_tuned_model = ascii ''9f22e08a-f1ab-4cee-9524-607dcb08c954-ft''"

text \<open>The keyword arguments \<^verbatim>\<open>get_prediction\<close> passes for one row.\<close>

definition rerank_arguments :: "pystr \<Rightarrow> normalized \<Rightarrow> rerank_request" where
  "rerank_arguments mdl item =
     \<lparr>model = mdl, rerank_query = query item, documents = docs item, top_n = 1\<rparr>"

definition get_prediction ::
  "'w client \<Rightarrow> pystr \<Rightarrow> normalized \<Rightarrow> 'w session \<Rightarrow> (py_error + int) \<times> 'w session" where
  "get_prediction co mdl item s =
     (let request = rerank_arguments mdl item;
          (response, w) = co request (world s);
          s' = \<lparr>calls = calls s @ [(request, response)], world = w\<rparr>
      in (bind_res response
            (\<lambda>results. case results of [] \<Rightarrow> Inl IndexError | r # _ \<Rightarrow> Inr (index r)),
          s'))"

text \<open>
  \<^verbatim>\<open>df_test.apply(f, axis=1)\<close> on a table that has rows: \<open>f\<close> on each row in order, the results
  under the rows' index; the first exception ends it.
\<close>

fun apply_each ::
  "('r \<Rightarrow> 's \<Rightarrow> (py_error + 'p) \<times> 's) \<Rightarrow> 'r dataframe \<Rightarrow> 's \<Rightarrow> (py_error + 'p dataframe) \<times> 's" where
  "apply_each f [] s = (Inr [], s)"
| "apply_each f ((idx, row) # rest) s =
     (case f row s of
        (Inl e, s1) \<Rightarrow> (Inl e, s1)
      | (Inr p, s1) \<Rightarrow>
          (case apply_each f rest s1 of
             (Inl e, s2) \<Rightarrow> (Inl e, s2)
           | (Inr ps, s2) \<Rightarrow> (Inr ((idx, p) # ps), s2)))"

text \<open>
  On a table without rows pandas does not run that loop. It calls \<open>f\<close> once on a row whose
  cells are all \<^verbatim>\<open>NaN\<close>, drops an exception of that call, and returns an empty series or a copy
  of the table, depending on the answer. For \<^verbatim>\<open>get_prediction\<close> this is one call of the service
  with \<^verbatim>\<open>NaN\<close> as query and as documents, which is no request for a shaped example, and what
  follows depends on the service and on the version of pandas. That case is not modelled:
  it is the answer \<open>NotModelled\<close>. The test set of the notebook has rows.
\<close>

definition apply_rows ::
  "('r \<Rightarrow> 's \<Rightarrow> (py_error + 'p) \<times> 's) \<Rightarrow> 'r dataframe \<Rightarrow> 's \<Rightarrow> (py_error + 'p dataframe) \<times> 's" where
  "apply_rows f df s = (if df = [] then (Inl NotModelled, s) else apply_each f df s)"

text \<open>
  \<^verbatim>\<open>sum(df_test["baseline_prediction"] == df_test["label"]) / len(df_test)\<close>. The comparison is
  element by element, \<^verbatim>\<open>sum\<close> counts the \<^verbatim>\<open>True\<close> entries, and \<^verbatim>\<open>/\<close> is true division: it raises
  on a zero divisor and otherwise rounds the exact quotient to a float. The rounding is the
  parameter \<open>fl\<close>; what is used of it is that it is monotone and leaves 0 and 1 unchanged,
  as binary64 rounding does.
\<close>

definition series_eq :: "'a list \<Rightarrow> 'a list \<Rightarrow> bool list" where
  "series_eq xs ys = map (\<lambda>(x, y). x = y) (zip xs ys)"

definition py_sum :: "bool list \<Rightarrow> int" where
  "py_sum bs = (\<Sum>b\<leftarrow>bs. if b then 1 else 0)"

definition py_truediv :: "(rat \<Rightarrow> rat) \<Rightarrow> int \<Rightarrow> int \<Rightarrow> py_error + rat" where
  "py_truediv fl a b = (if b = 0 then Inl ZeroDivisionError else Inr (fl (of_int a / of_int b)))"

definition accuracy :: "(rat \<Rightarrow> rat) \<Rightarrow> int list \<Rightarrow> normalized dataframe \<Rightarrow> py_error + rat" where
  "accuracy fl prediction df_test =
     py_truediv fl (py_sum (series_eq prediction (map (label \<circ> snd) df_test)))
       (int (length df_test))"

text \<open>
  The evaluation cell: the predictions for every row, then the accuracy.
\<close>

definition test_accuracy ::
  "(rat \<Rightarrow> rat) \<Rightarrow> 'w client \<Rightarrow> pystr \<Rightarrow> normalized dataframe \<Rightarrow> 'w session
     \<Rightarrow> (py_error + rat) \<times> 'w session" where
  "test_accuracy fl co mdl df_test s =
     (case apply_rows (get_prediction co mdl) df_test s of
        (Inl e, s1) \<Rightarrow> (Inl e, s1)
      | (Inr prediction, s1) \<Rightarrow> (accuracy fl (map snd prediction) df_test, s1))"

text \<open>
  A concrete rounding to run the definitions with: to the nearest multiple of \<open>2\<^sup>-\<^sup>5\<^sup>3\<close>, the
  spacing of binary64 numbers between 1/2 and 1.
\<close>

definition fixed53 :: "rat \<Rightarrow> rat" where
  "fixed53 x = of_int (round (x * 2 ^ 53)) / 2 ^ 53"

text \<open>The shaped form of the sample example with label \<open>l\<close>, and a service with one answer.\<close>

definition sample_row :: "int \<Rightarrow> normalized" where
  "sample_row l =
     (let ds = map (AStr \<circ> ascii) [''a'', ''b'', ''c'', ''d'', ''e'']
      in \<lparr>query = AStr (ascii ''which holding''), docs = ds, label = l,
          relevant_passages = [ds ! nat l],
          hard_negatives = take (nat l) ds @ drop (Suc (nat l)) ds\<rparr>)"

definition always_fourth :: "unit client" where
  "always_fourth request w = (Inr [\<lparr>index = 3, relevance_score = 9 / 10\<rparr>], w)"

section \<open>JSON lines serialization\<close>

subsection \<open>json.dumps\<close>

text \<open>
  What \<^verbatim>\<open>json.dumps\<close> is given: a cell value, a list, or a dictionary with text keys, kept in
  insertion order. Characters are written by their code point: 34 is the double quote,
  92 the backslash, 44 the comma, 58 the colon, 32 the space, 10 the newline, 13 the carriage
  return, 91 and 93 the square brackets, 123 and 125 the braces, 45 the minus sign,
  48 to 57 the digits, 117 the letter u.
\<close>

datatype pyobj = Atom atom | PyList "pyobj list" | PyDict "(pystr \<times> pyobj) list"

text \<open>
  With the default \<^verbatim>\<open>ensure_ascii=True\<close> a text is written between double quotes, every
  character outside the printable ASCII range (and the quote and the backslash) escaped:
  the short escapes, \<^verbatim>\<open>\uXXXX\<close> with four lowercase hexadecimal digits, and a surrogate pair
  of two such escapes for a code point beyond \<^verbatim>\<open>U+FFFF\<close>.
\<close>

definition hex_digit :: "nat \<Rightarrow> nat" where
  "hex_digit d = (if d < 10 then 48 + d else 87 + d)"

definition hex4 :: "nat \<Rightarrow> pystr" where
  "hex4 n = [hex_digit (n div 4096 mod 16), hex_digit (n div 256 mod 16),
             hex_digit (n div 16 mod 16), hex_digit (n mod 16)]"

definition u_escape :: "nat \<Rightarrow> pystr" where
  "u_escape n = [92, 117] @ hex4 n"

definition escape_char :: "nat \<Rightarrow> pystr" where
  "escape_char c =
     (if c = 34 then [92, 34]
      else if c = 92 then [92, 92]
      else if c = 10 then [92, 110]
      else if c = 13 then [92, 114]
      else if c = 9 then [92, 116]
      else if c = 12 then [92, 102]
      else if c = 8 then [92, 98]
      else if 32 \<le> c \<and> c \<le> 126 then [c]
      else if c < 65536 then u_escape c
      else u_escape (55296 + (c - 65536) div 1024 mod 1024)
         @ u_escape (56320 + (c - 65536) mod 1024))"

definition py_encode_basestring_ascii :: "pystr \<Rightarrow> pystr" where
  "py_encode_basestring_ascii s = [34] @ concat (map escape_char s) @ [34]"

text \<open>
  \<^verbatim>\<open>sep.join(xs)\<close>.
\<close>

fun join :: "pystr \<Rightarrow> pystr list \<Rightarrow> pystr" where
  "join sep [] = []"
| "join sep [x] = x"
| "join sep (x # y # ys) = x @ sep @ join sep (y # ys)"

text \<open>
  The JSON text, with the default separators \<^verbatim>\<open>", "\<close> and \<^verbatim>\<open>": "\<close>.
\<close>

definition encode_atom :: "atom \<Rightarrow> pystr" where
  "encode_atom a =
     (case a of
        ANone \<Rightarrow> ascii ''null''
      | AInt n \<Rightarrow> ascii (str_int n)
      | AStr s \<Rightarrow> py_encode_basestring_ascii s)"

fun encode :: "pyobj \<Rightarrow> pystr" where
  "encode (Atom a) = encode_atom a"
| "encode (PyList xs) = [91] @ join (ascii '', '') (map encode xs) @ [93]"
| "encode (PyDict kvs) =
     [123] @ join (ascii '', '')
        (map (\<lambda>(k, v). py_encode_basestring_ascii k @ ascii '': '' @ encode v) kvs) @ [125]"

text \<open>
  \<^verbatim>\<open>json.dumps\<close> writes an integer with \<^verbatim>\<open>int.__repr__\<close>, which raises \<^verbatim>\<open>ValueError\<close> beyond the
  limit on decimal digits; nothing else in these values can make it fail.
\<close>

definition int_repr_ok :: "atom \<Rightarrow> bool" where
  "int_repr_ok a =
     (case a of AInt n \<Rightarrow> length (str_nat (nat \<bar>n\<bar>)) \<le> int_max_str_digits | _ \<Rightarrow> True)"

fun encodable :: "pyobj \<Rightarrow> bool" where
  "encodable (Atom a) = int_repr_ok a"
| "encodable (PyList xs) = list_all encodable xs"
| "encodable (PyDict kvs) = list_all (\<lambda>(k, v). encodable v) kvs"

definition json_dumps :: "pyobj \<Rightarrow> py_error + pystr" where
  "json_dumps obj = (if encodable obj then Inr (encode obj) else Inl ValueError)"

subsection \<open>json.loads\<close>

text \<open>
  The decoder follows the scanner of the \<^verbatim>\<open>json\<close> module. Whitespace is space, tab, newline
  and carriage return.
\<close>

definition is_ws :: "nat \<Rightarrow> bool" where
  "is_ws c = (c = 32 \<or> c = 9 \<or> c = 10 \<or> c = 13)"

definition skip_ws :: "pystr \<Rightarrow> pystr" where
  "skip_ws s = dropWhile is_ws s"

text \<open>
  \<^verbatim>\<open>scanstring\<close> reads a text after its opening quote, up to the closing quote. A control
  character ends it with an error (strict mode); a backslash starts an escape. After
  \<^verbatim>\<open>\u\<close> come four hexadecimal digits; when they give a high surrogate and another
  \<^verbatim>\<open>\u\<close> escape follows that gives a low surrogate, the two are joined into one code point.
  The result is the text and the input left after the closing quote.
\<close>

definition hex_value :: "nat \<Rightarrow> nat option" where
  "hex_value c =
     (if 48 \<le> c \<and> c \<le> 57 then Some (c - 48)
      else if 97 \<le> c \<and> c \<le> 102 then Some (c - 87)
      else if 65 \<le> c \<and> c \<le> 70 then Some (c - 55)
      else None)"

definition escape_u :: "pystr \<Rightarrow> (nat \<times> pystr) option" where
  "escape_u s =
     (case s of
        a # b # c # d # rest \<Rightarrow>
          (case (hex_value a, hex_value b, hex_value c, hex_value d) of
             (Some x, Some y, Some z, Some w) \<Rightarrow> Some (((x * 16 + y) * 16 + z) * 16 + w, rest)
           | _ \<Rightarrow> None)
      | _ \<Rightarrow> None)"

definition unicode_escape :: "pystr \<Rightarrow> (nat \<times> pystr) option" where
  "unicode_escape s =
     (case escape_u s of
        None \<Rightarrow> None
      | Some (u, rest) \<Rightarrow>
          (if 55296 \<le> u \<and> u \<le> 56319 \<and> take 2 rest = [92, 117] then
             (case escape_u (drop 2 rest) of
                None \<Rightarrow> None
              | Some (u2, rest2) \<Rightarrow>
                  (if 56320 \<le> u2 \<and> u2 \<le> 57343
                   then Some (65536 + (u - 55296) * 1024 + (u2 - 56320), rest2)
                   else Some (u, rest)))
           else Some (u, rest)))"

definition backslash :: "nat \<Rightarrow> nat option" where
  "backslash e =
     (if e = 34 then Some 34
      else if e = 92 then Some 92
      else if e = 47 then Some 47
      else if e = 98 then Some 8
      else if e = 102 then Some 12
      else if e = 110 then Some 10
      else if e = 114 then Some 13
      else if e = 116 then Some 9
      else None)"

definition cons_char :: "nat \<Rightarrow> (pystr \<times> pystr) option \<Rightarrow> (pystr \<times> pystr) option" where
  "cons_char c r = (case r of None \<Rightarrow> None | Some (t, rest) \<Rightarrow> Some (c # t, rest))"

text \<open>
  An escape consumes input, which is why \<open>scanstring\<close> terminates.
\<close>

lemma escape_u_length: "escape_u s = Some (u, rest) \<Longrightarrow> length s = length rest + 4"
  by (auto simp: escape_u_def split: list.splits option.splits)

lemma unicode_escape_length: "unicode_escape s = Some (u, rest) \<Longrightarrow> length rest < length s"
  by (auto simp: unicode_escape_def split: option.splits if_splits dest!: escape_u_length)

function scanstring :: "pystr \<Rightarrow> (pystr \<times> pystr) option" where
  "scanstring [] = None"
| "scanstring (c # cs) =
     (if c = 34 then Some ([], cs)
      else if c < 32 then None
      else if c = 92 then
        (case cs of
           [] \<Rightarrow> None
         | e # cs1 \<Rightarrow>
             (if e = 117 then
                (case unicode_escape cs1 of
                   None \<Rightarrow> None
                 | Some (u, cs2) \<Rightarrow> cons_char u (scanstring cs2))
              else
                (case backslash e of
                   None \<Rightarrow> None
                 | Some x \<Rightarrow> cons_char x (scanstring cs1))))
      else cons_char c (scanstring cs))"
  by pat_completeness auto

termination
  by (relation "measure length") (auto dest: unicode_escape_length)

declare scanstring.simps [simp del]

text \<open>
  A number is an optional minus sign and either a single 0 or a digit from 1 to 9 followed by
  digits. When a fraction or an exponent follows, Python reads a float: floats, like
  \<^verbatim>\<open>true\<close>, \<^verbatim>\<open>false\<close>, \<^verbatim>\<open>NaN\<close> and \<^verbatim>\<open>Infinity\<close>, are not among the values modelled, and the decoder
  answers \<open>NotModelled\<close> for them. An integer is converted by \<^verbatim>\<open>int\<close>, under the digit limit.
\<close>

definition digits_int :: "pystr \<Rightarrow> nat" where
  "digits_int ds = foldl (\<lambda>acc d. 10 * acc + (d - 48)) 0 ds"

definition float_tail :: "pystr \<Rightarrow> bool" where
  "float_tail rest =
     (case rest of
        [] \<Rightarrow> False
      | c # rest1 \<Rightarrow>
          (if c = 46 then rest1 \<noteq> [] \<and> is_digit (hd rest1)
           else if c = 101 \<or> c = 69 then
             (let rest2 = (if rest1 \<noteq> [] \<and> (hd rest1 = 45 \<or> hd rest1 = 43) \<and> tl rest1 \<noteq> []
                           then tl rest1 else rest1)
              in rest2 \<noteq> [] \<and> is_digit (hd rest2))
           else False))"

definition finish_number :: "bool \<Rightarrow> pystr \<Rightarrow> pystr \<Rightarrow> py_error + (pyobj \<times> pystr)" where
  "finish_number neg ds rest =
     (if float_tail rest then Inl NotModelled
      else if int_max_str_digits < length ds then Inl ValueError
      else Inr (Atom (AInt (if neg then - int (digits_int ds) else int (digits_int ds))), rest))"

definition match_number :: "pystr \<Rightarrow> py_error + (pyobj \<times> pystr)" where
  "match_number s =
     (let neg = (s \<noteq> [] \<and> hd s = 45);
          s1 = (if neg then tl s else s)
      in case s1 of
           [] \<Rightarrow> Inl JSONDecodeError
         | c # cs \<Rightarrow>
             (if 49 \<le> c \<and> c \<le> 57
              then finish_number neg (takeWhile is_digit s1) (dropWhile is_digit s1)
              else if c = 48 then finish_number neg [48] cs
              else Inl JSONDecodeError))"

definition starts_with :: "pystr \<Rightarrow> pystr \<Rightarrow> bool" where
  "starts_with s p = (take (length p) s = p)"

text \<open>
  The pairs of an object are stored into a dictionary one after the other: a key that
  comes again keeps its place and takes the new value.
\<close>

fun dict_set :: "(pystr \<times> pyobj) list \<Rightarrow> pystr \<Rightarrow> pyobj \<Rightarrow> (pystr \<times> pyobj) list" where
  "dict_set [] k v = [(k, v)]"
| "dict_set ((k', v') # kvs) k v =
     (if k' = k then (k, v) # kvs else (k', v') # dict_set kvs k v)"

definition py_dict :: "(pystr \<times> pyobj) list \<Rightarrow> pyobj" where
  "py_dict pairs = PyDict (foldl (\<lambda>d (k, v). dict_set d k v) [] pairs)"

text \<open>
  \<^verbatim>\<open>scan_once\<close> reads one value at the head of the input, \<^verbatim>\<open>JSONArray\<close> the elements of a
  non-empty array after its bracket and \<^verbatim>\<open>JSONObject\<close> the members of a non-empty object
  after its brace; each gives the value and the input left. The first argument bounds the
  number of nested calls: every second call at the latest consumes a character, so the bound
  \<^verbatim>\<open>json_loads\<close> starts from is never used up (\<open>json_loads_returns\<close> below).
\<close>

fun scan_once :: "nat \<Rightarrow> pystr \<Rightarrow> py_error + (pyobj \<times> pystr)"
  and JSONArray :: "nat \<Rightarrow> pystr \<Rightarrow> py_error + (pyobj list \<times> pystr)"
  and JSONObject :: "nat \<Rightarrow> pystr \<Rightarrow> py_error + ((pystr \<times> pyobj) list \<times> pystr)"
where
  "scan_once 0 s = Inl RecursionError"
| "scan_once (Suc n) [] = Inl JSONDecodeError"
| "scan_once (Suc n) (c # cs) =
     (if c = 34 then
        (case scanstring cs of
           None \<Rightarrow> Inl JSONDecodeError
         | Some (t, rest) \<Rightarrow> Inr (Atom (AStr t), rest))
      else if c = 123 then
        (let cs1 = skip_ws cs in
         if cs1 \<noteq> [] \<and> hd cs1 = 125 then Inr (PyDict [], tl cs1)
         else bind_res (JSONObject n cs1) (\<lambda>(pairs, rest). Inr (py_dict pairs, rest)))
      else if c = 91 then
        (let cs1 = skip_ws cs in
         if cs1 \<noteq> [] \<and> hd cs1 = 93 then Inr (PyList [], tl cs1)
         else bind_res (JSONArray n cs1) (\<lambda>(values, rest). Inr (PyList values, rest)))
      else if starts_with (c # cs) (ascii ''null'') then Inr (Atom ANone, drop 3 cs)
      else if starts_with (c # cs) (ascii ''true'') \<or> starts_with (c # cs) (ascii ''false'')
           \<or> starts_with (c # cs) (ascii ''NaN'') \<or> starts_with (c # cs) (ascii ''Infinity'')
           \<or> starts_with (c # cs) (ascii ''-Infinity'') then Inl NotModelled
      else match_number (c # cs))"
| "JSONArray 0 s = Inl RecursionError"
| "JSONArray (Suc n) s =
     bind_res (scan_once n s) (\<lambda>(val, rest).
       case skip_ws rest of
         [] \<Rightarrow> Inl JSONDecodeError
       | d # rest1 \<Rightarrow>
           (if d = 93 then Inr ([val], rest1)
            else if d = 44 then
              bind_res (JSONArray n (skip_ws rest1)) (\<lambda>(values, rest2). Inr (val # values, rest2))
            else Inl JSONDecodeError))"
| "JSONObject 0 s = Inl RecursionError"
| "JSONObject (Suc n) s =
     (case s of
        [] \<Rightarrow> Inl JSONDecodeError
      | q # s1 \<Rightarrow>
          (if q \<noteq> 34 then Inl JSONDecodeError
           else case scanstring s1 of
             None \<Rightarrow> Inl JSONDecodeError
           | Some (key, rest) \<Rightarrow>
               (case skip_ws rest of
                  [] \<Rightarrow> Inl JSONDecodeError
                | colon # rest1 \<Rightarrow>
                    (if colon \<noteq> 58 then Inl JSONDecodeError
                     else bind_res (scan_once n (skip_ws rest1)) (\<lambda>(val, rest2).
                       case skip_ws rest2 of
                         [] \<Rightarrow> Inl JSONDecodeError
                       | d # rest3 \<Rightarrow>
                           (if d = 125 then Inr ([(key, val)], rest3)
                            else if d = 44 then
                              bind_res (JSONObject n (skip_ws rest3))
                                (\<lambda>(pairs, rest4). Inr ((key, val) # pairs, rest4))
                            else Inl JSONDecodeError))))))"

text \<open>
  \<^verbatim>\<open>json.loads\<close>: whitespace, one value, whitespace, and nothing more.
\<close>

definition json_loads :: "pystr \<Rightarrow> py_error + pyobj" where
  "json_loads s =
     bind_res (scan_once (2 * length s + 2) (skip_ws s)) (\<lambda>(obj, rest).
       if skip_ws rest = [] then Inr obj else Inl JSONDecodeError)"

subsection \<open>Well-formed values\<close>

text \<open>
  A text of the dataset is Unicode text: its code points are scalar values, that is, below
  \<^verbatim>\<open>0x110000\<close> and no surrogates (55296 to 57343). The corpus is stored as UTF-8, which has no
  encoding for a surrogate.
\<close>

definition unicode_scalar :: "nat \<Rightarrow> bool" where
  "unicode_scalar c = (c < 55296 \<or> (57343 < c \<and> c < 1114112))"

definition unicode_text :: "pystr \<Rightarrow> bool" where
  "unicode_text s = list_all unicode_scalar s"

text \<open>
  What can follow a value inside a JSON text written by \<^verbatim>\<open>json.dumps\<close>, or at the end of a
  line: nothing, a comma, a closing bracket or brace, or whitespace.
\<close>

definition delimited :: "pystr \<Rightarrow> bool" where
  "delimited r = (case r of [] \<Rightarrow> True | c # _ \<Rightarrow> c = 44 \<or> c = 93 \<or> c = 125 \<or> is_ws c)"

text \<open>
  A well-formed value: texts and keys are Unicode text, integers are within the digit limit,
  and the keys of a dictionary are distinct (as they are in every Python dictionary).
\<close>

definition well_formed_atom :: "atom \<Rightarrow> bool" where
  "well_formed_atom a =
     (case a of
        ANone \<Rightarrow> True
      | AInt n \<Rightarrow> length (str_nat (nat \<bar>n\<bar>)) \<le> int_max_str_digits
      | AStr s \<Rightarrow> unicode_text s)"

fun well_formed :: "pyobj \<Rightarrow> bool" where
  "well_formed (Atom a) = well_formed_atom a"
| "well_formed (PyList xs) = list_all well_formed xs"
| "well_formed (PyDict kvs) =
     (distinct (map fst kvs) \<and> list_all (\<lambda>(k, v). unicode_text k \<and> well_formed v) kvs)"

text \<open>
  The characters the JSON text of a value can start with.
\<close>

definition value_start :: "nat \<Rightarrow> bool" where
  "value_start c = (c = 34 \<or> c = 123 \<or> c = 91 \<or> c = 110 \<or> c = 45 \<or> is_digit c)"

text \<open>
  \<open>decodes v\<close>: the scanner reads \<open>v\<close> back from its JSON text, whatever delimited input
  follows, given a bound of nested calls of at least the length of that text.
\<close>

definition decodes :: "pyobj \<Rightarrow> bool" where
  "decodes v = (\<forall>n r. delimited r \<longrightarrow> length (encode v) \<le> n
                  \<longrightarrow> scan_once n (encode v @ r) = Inr (v, r))"

text \<open>
  One member of an object, as \<open>encode\<close> writes it.
\<close>

definition encode_item :: "pystr \<times> pyobj \<Rightarrow> pystr" where
  "encode_item kv = py_encode_basestring_ascii (fst kv) @ ascii '': '' @ encode (snd kv)"

subsection \<open>Files\<close>

text \<open>
  The file system, as far as the notebook touches it: what is at a path of the working
  directory, a regular file with its text or a directory. Text is written and read back
  through the same encoding, and what \<^verbatim>\<open>json.dumps\<close> writes is ASCII, so a file is modelled by
  its text. \<^verbatim>\<open>os.path.isfile\<close> holds for a regular file only.
\<close>

datatype fsnode = File pystr | Dir

type_synonym filesystem = "pystr \<rightharpoonup> fsnode"

definition isfile :: "filesystem \<Rightarrow> pystr \<Rightarrow> bool" where
  "isfile fs path = (case fs path of Some (File content) \<Rightarrow> True | _ \<Rightarrow> False)"

text \<open>
  \<^verbatim>\<open>create_rerank_ft_data\<close>, and its call on one row of the table: the label and the
  \<^verbatim>\<open>docs\<close> column are left out.
\<close>

definition create_rerank_ft_data :: "atom \<Rightarrow> atom list \<Rightarrow> atom list \<Rightarrow> pyobj" where
  "create_rerank_ft_data query_text relevant negatives =
     PyDict [(ascii ''query'', Atom query_text),
             (ascii ''relevant_passages'', PyList (map Atom relevant)),
             (ascii ''hard_negatives'', PyList (map Atom negatives))]"

definition formatted_data :: "normalized \<Rightarrow> pyobj" where
  "formatted_data row =
     create_rerank_ft_data (query row) (relevant_passages row) (hard_negatives row)"

text \<open>
  The loop over \<^verbatim>\<open>df.iterrows()\<close>: one \<^verbatim>\<open>json.dumps(...) + '\n'\<close> per row, appended to the
  file. When \<^verbatim>\<open>json.dumps\<close> raises, the lines written so far stay in the file.
\<close>

fun write_rows :: "normalized dataframe \<Rightarrow> pystr \<Rightarrow> py_error option \<times> pystr" where
  "write_rows [] content = (None, content)"
| "write_rows ((idx, row) # rest) content =
     (case json_dumps (formatted_data row) of
        Inl e \<Rightarrow> (Some e, content)
      | Inr line \<Rightarrow> write_rows rest (content @ line @ [10]))"

text \<open>
  \<^verbatim>\<open>create_jsonl_from_list\<close>: nothing is done when the path is a regular file; otherwise the
  file is opened with mode \<^verbatim>\<open>w+\<close>, which fails on a directory and creates or empties the
  file. The result is the exception raised, if any, and the new file system.
\<close>

definition create_jsonl_from_list ::
  "pystr \<Rightarrow> normalized dataframe \<Rightarrow> filesystem \<Rightarrow> py_error option \<times> filesystem" where
  "create_jsonl_from_list file_name df fs =
     (let path = file_name @ ascii ''.jsonl'' in
      if \<not> isfile fs path then
        (case fs path of
           Some Dir \<Rightarrow> (Some IsADirectoryError, fs)
         | _ \<Rightarrow> (let (err, content) = write_rows df [] in (err, fs(path \<mapsto> File content))))
      else (None, fs))"

text \<open>
  Reading the file back, as \<^verbatim>\<open>jsonlines.open\<close> does: a text file is read with universal
  newlines and iterated line by line, each line with its newline. \<^verbatim>\<open>jsonlines\<close> drops one
  leading record separator (30) or byte order mark (65279), decodes the line with
  \<^verbatim>\<open>json.loads\<close>, turns a decoding \<^verbatim>\<open>ValueError\<close> into \<^verbatim>\<open>InvalidLineError\<close> and refuses a line
  that is \<^verbatim>\<open>null\<close>.
\<close>

fun universal_newlines :: "pystr \<Rightarrow> pystr" where
  "universal_newlines [] = []"
| "universal_newlines [c] = (if c = 13 then [10] else [c])"
| "universal_newlines (c # d # cs) =
     (if c = 13 \<and> d = 10 then 10 # universal_newlines cs
      else if c = 13 then 10 # universal_newlines (d # cs)
      else c # universal_newlines (d # cs))"

fun split_keepends :: "pystr \<Rightarrow> pystr \<Rightarrow> pystr list" where
  "split_keepends cur [] = (if cur = [] then [] else [cur])"
| "split_keepends cur (c # cs) =
     (if c = 10 then (cur @ [10]) # split_keepends [] cs else split_keepends (cur @ [c]) cs)"

definition file_lines :: "pystr \<Rightarrow> pystr list" where
  "file_lines content = split_keepends [] (universal_newlines content)"

definition jsonlines_read :: "pystr \<Rightarrow> py_error + pyobj" where
  "jsonlines_read line =
     (let text = (if line \<noteq> [] \<and> (hd line = 30 \<or> hd line = 65279) then tl line else line)
      in case json_loads text of
           Inl e \<Rightarrow> Inl (if e = JSONDecodeError \<or> e = ValueError then InvalidLineError else e)
         | Inr obj \<Rightarrow> (if obj = Atom ANone then Inl InvalidLineError else Inr obj))"

definition read_jsonl :: "pystr \<Rightarrow> (py_error + pyobj) list" where
  "read_jsonl content = map jsonlines_read (file_lines content)"

text \<open>
  The rows the serializer is meant for, and the weaker condition under which
  \<^verbatim>\<open>json.dumps\<close> cannot fail on a row. The query of a row is a text or \<^verbatim>\<open>None\<close>: such a column
  holds Python objects, which pandas hands back unchanged (a column of numbers would be
  converted to a numeric type).
\<close>

definition text_or_none :: "atom \<Rightarrow> bool" where
  "text_or_none a = (case a of AInt n \<Rightarrow> False | _ \<Rightarrow> True)"

definition well_formed_row :: "normalized \<Rightarrow> bool" where
  "well_formed_row row =
     (text_or_none (query row) \<and> well_formed_atom (query row)
      \<and> list_all well_formed_atom (relevant_passages row)
      \<and> list_all well_formed_atom (hard_negatives row))"

definition encodable_row :: "normalized \<Rightarrow> bool" where
  "encodable_row row =
     (text_or_none (query row) \<and> list_all int_repr_ok (relevant_passages row)
      \<and> list_all int_repr_ok (hard_negatives row))"

text \<open>
  The text of the file for a table: the JSON text of each row and a newline.
\<close>

definition jsonl_text :: "normalized dataframe \<Rightarrow> pystr" where
  "jsonl_text df = concat (map (\<lambda>(idx, row). encode (formatted_data row) @ [10]) df)"

text \<open>
  The printable ASCII characters.
\<close>

definition printable :: "nat \<Rightarrow> bool" where
  "printable c = (32 \<le> c \<and> c \<le> 126)"

text \<open>
  A row to run the serializer on: a query with a newline in it, a passage with a carriage
  return, a newline and a character outside ASCII, and among the negatives \<^verbatim>\<open>None\<close>, an empty
  text, an integer and a character beyond \<^verbatim>\<open>U+FFFF\<close>.
\<close>

definition newline_row :: normalized where
  "newline_row =
     \<lparr>query = AStr (ascii ''first line'' @ [10] @ ascii ''second line''), docs = [], label = 0,
      relevant_passages = [AStr (ascii ''a'' @ [13, 10, 8217] @ ascii ''b'')],
      hard_negatives = [ANone, AStr [], AInt (- 7), AStr [128512]]\<rparr>"

section \<open>Properties of the record shaper\<close>

lemma str_nat_digit: "n < 10 \<Longrightarrow> str_nat n = [digit_char n]"
  by (simp add: str_nat.simps)

lemma length5E:
  assumes "length xs = 5"
  obtains a b c d e where "xs = [a, b, c, d, e]"
  using assms by (auto simp: length_Suc_conv eval_nat_numeral)

lemmas shape_defs =
  shape_example_def bind_res_def getitem_def get_or_none_def
  py_format_def py_int_def py_int_str_def decimal_and_space_to_ascii_def is_digit_def
  c_isspace_def
  all_labels_def ascii_def str_int_def str_nat_digit digit_char_def int_max_str_digits_def

lemma shape_example_result:
  assumes lbl: "example (ascii ''label'') = Some lbl" "label_index lbl i"
    and i: "0 \<le> i" "i < 5"
    and q: "example (ascii ''citing_prompt'') = Some q"
    and sel: "example (all_labels ! nat i) = Some p"
  shows "shape_example example =
           Inr \<lparr>query = q, docs = map (get_or_none example) all_labels, label = i,
                relevant_passages = [p],
                hard_negatives = take (nat i) (map (get_or_none example) all_labels)
                   @ drop (Suc (nat i)) (map (get_or_none example) all_labels)\<rparr>"
proof -
  from i have "i = 0 \<or> i = 1 \<or> i = 2 \<or> i = 3 \<or> i = 4" by arith
  then show ?thesis
    using lbl q sel unfolding label_index_def
    by (elim disjE) (simp_all add: shape_defs)
qed

lemma candidates_docs:
  assumes "map example all_labels = map Some candidates"
  shows "map (get_or_none example) all_labels = candidates"
proof -
  have "map (get_or_none example) all_labels = map (\<lambda>v. case v of None \<Rightarrow> ANone | Some x \<Rightarrow> x) (map example all_labels)"
    by (simp add: get_or_none_def comp_def)
  also have "\<dots> = candidates"
    unfolding assms by (simp add: comp_def)
  finally show ?thesis .
qed

lemma candidates_length:
  assumes "map example all_labels = map Some candidates"
  shows "length candidates = 5"
  using arg_cong [OF assms, of length] by (simp add: all_labels_def)

lemma candidates_nth:
  assumes "map example all_labels = map Some candidates" "j < 5"
  shows "example (all_labels ! j) = Some (candidates ! j)"
proof -
  have "length all_labels = 5" by (simp add: all_labels_def)
  with assms(2) have "map example all_labels ! j = example (all_labels ! j)" by simp
  moreover have "map Some candidates ! j = Some (candidates ! j)"
    using candidates_length [OF assms(1)] assms(2) by simp
  ultimately show ?thesis using assms(1) by simp
qed

text \<open>
  C1 (record shaper contract). For a raw example whose label denotes an index \<open>i\<close> in [0,5)
  and whose five candidate passages are all present (\<open>candidates\<close>, in field order), shaping
  succeeds; \<open>relevant_passages\<close> is the one-element list of candidate \<open>i\<close>, \<open>hard_negatives\<close> is
  the candidates with position \<open>i\<close> removed and the other four in their original order; so the
  lengths are 1 and 4 and, as multisets, the two lists together are the five candidates.
\<close>

theorem shaper_contract:
  assumes lbl: "example (ascii ''label'') = Some lbl" "label_index lbl i"
    and i: "0 \<le> i" "i < 5"
    and q: "example (ascii ''citing_prompt'') = Some q"
    and cs: "map example all_labels = map Some candidates"
  shows "\<exists>r. shape_example example = Inr r
           \<and> relevant_passages r = [candidates ! nat i]
           \<and> hard_negatives r = take (nat i) candidates @ drop (Suc (nat i)) candidates
           \<and> length (relevant_passages r) = 1
           \<and> length (hard_negatives r) = 4
           \<and> mset (relevant_passages r) + mset (hard_negatives r) = mset candidates"
proof -
  have len: "length candidates = 5" by (rule candidates_length [OF cs])
  have ni: "nat i < 5" using i by simp
  have sel: "example (all_labels ! nat i) = Some (candidates ! nat i)"
    by (rule candidates_nth [OF cs ni])
  let ?hn = "take (nat i) candidates @ drop (Suc (nat i)) candidates"
  have res: "shape_example example =
      Inr \<lparr>query = q, docs = candidates, label = i,
           relevant_passages = [candidates ! nat i], hard_negatives = ?hn\<rparr>"
    using shape_example_result [OF lbl i q sel] by (simp add: candidates_docs [OF cs])
  have l4: "length ?hn = 4" using len ni by simp
  have "candidates = take (nat i) candidates @ candidates ! nat i # drop (Suc (nat i)) candidates"
    using len ni by (simp add: id_take_nth_drop)
  then have "mset candidates = mset (take (nat i) candidates @ candidates ! nat i # drop (Suc (nat i)) candidates)"
    by simp
  then have ms: "mset [candidates ! nat i] + mset ?hn = mset candidates"
    by simp
  show ?thesis using res l4 ms by simp
qed

theorem shaper_contract_witness:
  "\<exists>r. shape_example sample_example = Inr r
      \<and> relevant_passages r = [AStr (ascii ''d'')]
      \<and> hard_negatives r = map (AStr \<circ> ascii) [''a'', ''b'', ''c'', ''e'']
      \<and> mset (relevant_passages r) + mset (hard_negatives r)
          = mset (map (AStr \<circ> ascii) [''a'', ''b'', ''c'', ''d'', ''e''])"
  using shaper_contract [of sample_example "AStr (ascii ''3'')" 3 "AStr (ascii ''which holding'')"
      "map (AStr \<circ> ascii) [''a'', ''b'', ''c'', ''d'', ''e'']"]
  by (simp add: sample_example_def label_index_def shape_defs)


lemma str_nat_nonempty: "str_nat n \<noteq> []"
  by (subst str_nat.simps) simp

lemma str_nat_long: "10 \<le> n \<Longrightarrow> 2 \<le> length (str_nat n)"
proof -
  assume "10 \<le> n"
  then have "str_nat n = str_nat (n div 10) @ [digit_char (n mod 10)]"
    by (subst str_nat.simps) simp
  moreover have "1 \<le> length (str_nat (n div 10))"
    using str_nat_nonempty [of "n div 10"] by (cases "str_nat (n div 10)") simp_all
  ultimately show ?thesis by simp
qed

lemma digit_char_inj:
  assumes "m < 10" "k < 10" "digit_char m = digit_char k"
  shows "m = k"
proof -
  have "distinct ''0123456789''" by simp
  moreover have "length ''0123456789'' = 10" by simp
  ultimately show ?thesis
    using assms unfolding digit_char_def by (simp only: nth_eq_iff_index_eq)
qed

lemma str_nat_single:
  assumes "str_nat m = str_nat k" "k < 10"
  shows "m = k"
proof -
  have "m < 10"
  proof (rule ccontr)
    assume "\<not> m < 10"
    then have "2 \<le> length (str_nat m)" by (simp add: str_nat_long)
    then show False using assms by (simp add: str_nat_digit)
  qed
  moreover from this assms have "digit_char m = digit_char k"
    by (simp add: str_nat_digit)
  ultimately show ?thesis using assms(2) by (intro digit_char_inj)
qed

lemma str_int_single:
  assumes "str_int n = str_int i" "0 \<le> i" "i < 10"
  shows "n = i"
proof (cases "n < 0")
  case True
  then have "2 \<le> length (str_int n)"
    using str_nat_nonempty [of "nat (- n)"]
    by (cases "str_nat (nat (- n))") (simp_all add: str_int_def)
  then show ?thesis using assms by (simp add: str_int_def str_nat_digit)
next
  case False
  then have "str_nat (nat n) = str_nat (nat i)" using assms by (simp add: str_int_def)
  then have "nat n = nat i" using assms by (intro str_nat_single) simp_all
  then show ?thesis using False assms by simp
qed

lemma ascii_inj: "ascii s = ascii t \<Longrightarrow> s = t"
  by (simp add: ascii_def inj_map_eq_map [OF inj_of_char])

lemma selected_suffix_cases:
  assumes "raw_example example" "example (ascii ''holding_'' @ suffix) = Some p"
  shows "\<exists>i. 0 \<le> i \<and> i < 5 \<and> suffix = ascii (str_int i)"
proof -
  have "ascii ''holding_'' @ suffix \<in> dom example" using assms(2) by blast
  moreover have "take 8 (ascii ''holding_'' @ suffix) = ascii ''holding_''"
    by (simp add: ascii_def)
  ultimately have "ascii ''holding_'' @ suffix \<in> set all_labels"
    using assms(1) unfolding raw_example_def by blast
  then have "suffix = ascii ''0'' \<or> suffix = ascii ''1'' \<or> suffix = ascii ''2''
      \<or> suffix = ascii ''3'' \<or> suffix = ascii ''4''"
    by (auto simp: all_labels_def)
  then show ?thesis
  proof (elim disjE)
    assume "suffix = ascii ''0''" then show ?thesis
      by (intro exI [of _ 0]) (simp add: str_int_def str_nat_digit digit_char_def)
  next
    assume "suffix = ascii ''1''" then show ?thesis
      by (intro exI [of _ 1]) (simp add: str_int_def str_nat_digit digit_char_def)
  next
    assume "suffix = ascii ''2''" then show ?thesis
      by (intro exI [of _ 2]) (simp add: str_int_def str_nat_digit digit_char_def)
  next
    assume "suffix = ascii ''3''" then show ?thesis
      by (intro exI [of _ 3]) (simp add: str_int_def str_nat_digit digit_char_def)
  next
    assume "suffix = ascii ''4''" then show ?thesis
      by (intro exI [of _ 4]) (simp add: str_int_def str_nat_digit digit_char_def)
  qed
qed

lemma py_int_canonical:
  assumes "0 \<le> i" "i < 5"
  shows "py_int_str (ascii (str_int i)) = Inr i"
proof -
  from assms have "i = 0 \<or> i = 1 \<or> i = 2 \<or> i = 3 \<or> i = 4" by arith
  then show ?thesis by (elim disjE) (simp_all add: shape_defs)
qed

text \<open>
  \<^verbatim>\<open>int\<close> drops the whitespace of C and of Unicode beyond ASCII and reads the decimal digits of
  every script: the separator U+001C before a digit makes the conversion fail, the
  Arabic-Indic digit seven converts to 7, and a no-break space and a trailing space around
  a signed number with an underscore are accepted.
\<close>

lemma py_int_str_examples:
  "py_int_str [28, 55] = Inl ValueError"
  "py_int_str [1639] = Inr 7"
  "py_int_str [160, 45, 1633, 95, 50, 32] = Inr (- 12)"
  by (simp_all add: py_int_str_def decimal_and_space_to_ascii_def to_decimal_def
      decimal_zeros_def unicode_space_def c_isspace_def is_digit_def int_max_str_digits_def)

text \<open>
  So a label with such a separator ends shaping at the conversion, before the selected field
  is looked up, and a label written with another script's digit converts but names no field.
\<close>

lemma shape_example_label_examples:
  "shape_example (sample_example(ascii ''label'' \<mapsto> AStr [28, 55])) = Inl ValueError"
  "shape_example (sample_example(ascii ''label'' \<mapsto> AStr [1639])) = Inl KeyError"
  by (simp_all add: sample_example_def shape_defs to_decimal_def decimal_zeros_def
      unicode_space_def)

lemma label_of_suffix:
  assumes "py_format lbl = Inr (ascii (str_int i))" "0 \<le> i" "i < 5" "py_int lbl = Inr n"
  shows "n = i \<and> label_index lbl i"
proof (cases lbl)
  case ANone
  then show ?thesis using assms by (simp add: py_int_def)
next
  case (AInt m)
  with assms(1) have "ascii (str_int m) = ascii (str_int i)"
    by (simp add: py_format_def split: if_splits)
  then have "str_int m = str_int i" by (rule ascii_inj)
  then have "m = i" using assms(2,3) by (intro str_int_single) simp_all
  then show ?thesis using AInt assms(4) by (simp add: py_int_def label_index_def)
next
  case (AStr s)
  with assms(1) have s: "s = ascii (str_int i)" by (simp add: py_format_def)
  then have "py_int lbl = Inr i" using AStr py_int_canonical [OF assms(2,3)]
    by (simp add: py_int_def)
  then show ?thesis using assms(4) AStr s by (simp add: label_index_def)
qed

lemma shape_example_success:
  assumes "shape_example example = Inr r"
  obtains lbl suffix q l rp where
    "example (ascii ''label'') = Some lbl" "py_format lbl = Inr suffix"
    "example (ascii ''citing_prompt'') = Some q" "py_int lbl = Inr l"
    "example (ascii ''holding_'' @ suffix) = Some rp"
  using assms
  by (auto simp: shape_example_def bind_res_def getitem_def Let_def
      split: sum.splits option.splits)

text \<open>
  C8 (label-pointing invariant). Whenever shaping a raw example succeeds, the stored label is
  the index \<open>i\<close> in [0,5) that the raw label denotes, it is a valid position of \<open>docs\<close> (the five
  candidates in original order), and the candidate at that position is the single element of
  \<open>relevant_passages\<close>.
\<close>

theorem label_points_to_relevant:
  assumes raw: "raw_example example" and ok: "shape_example example = Inr r"
  shows "\<exists>lbl i. example (ascii ''label'') = Some lbl \<and> label_index lbl i
           \<and> 0 \<le> i \<and> i < 5 \<and> label r = i
           \<and> docs r = map (get_or_none example) all_labels
           \<and> nat (label r) < length (docs r)
           \<and> example (all_labels ! nat i) = Some (docs r ! nat (label r))
           \<and> relevant_passages r = [docs r ! nat (label r)]"
proof -
  from ok obtain lbl suffix q l rp where
    lbl: "example (ascii ''label'') = Some lbl" and fmt: "py_format lbl = Inr suffix"
    and q: "example (ascii ''citing_prompt'') = Some q" and l: "py_int lbl = Inr l"
    and rp: "example (ascii ''holding_'' @ suffix) = Some rp"
    by (rule shape_example_success)
  from selected_suffix_cases [OF raw rp] obtain i where
    i: "0 \<le> i" "i < 5" and suffix: "suffix = ascii (str_int i)" by blast
  from label_of_suffix [OF fmt [unfolded suffix] i l] have li: "label_index lbl i" by simp
  have key: "all_labels ! nat i = ascii ''holding_'' @ suffix"
  proof -
    from i have "i = 0 \<or> i = 1 \<or> i = 2 \<or> i = 3 \<or> i = 4" by arith
    then show ?thesis unfolding suffix
      by (elim disjE) (simp_all add: all_labels_def ascii_def str_int_def str_nat_digit digit_char_def)
  qed
  have sel: "example (all_labels ! nat i) = Some rp" using rp key by simp
  have len: "length all_labels = 5" by (simp add: all_labels_def)
  have ni: "nat i < 5" using i by simp
  have nth: "map (get_or_none example) all_labels ! nat i = rp"
    using sel ni len by (simp add: get_or_none_def)
  have "r = \<lparr>query = q, docs = map (get_or_none example) all_labels, label = i,
              relevant_passages = [rp],
              hard_negatives = take (nat i) (map (get_or_none example) all_labels)
                 @ drop (Suc (nat i)) (map (get_or_none example) all_labels)\<rparr>"
    using shape_example_result [OF lbl li i q sel] ok by simp
  then show ?thesis using lbl li i sel nth ni len by auto
qed

theorem label_points_to_relevant_witness:
  "\<exists>r. shape_example sample_example = Inr r \<and> label r = 3
      \<and> docs r ! nat (label r) = AStr (ascii ''d'')
      \<and> relevant_passages r = [AStr (ascii ''d'')]"
proof -
  have raw: "raw_example sample_example"
    by (auto simp: raw_example_def sample_example_def all_labels_def ascii_def split: if_splits)
  have ok: "shape_example sample_example =
      Inr \<lparr>query = AStr (ascii ''which holding''),
           docs = map (AStr \<circ> ascii) [''a'', ''b'', ''c'', ''d'', ''e''], label = 3,
           relevant_passages = [AStr (ascii ''d'')],
           hard_negatives = map (AStr \<circ> ascii) [''a'', ''b'', ''c'', ''e'']\<rparr>"
    by (simp add: sample_example_def shape_defs)
  show ?thesis using label_points_to_relevant [OF raw ok] by (simp add: ok)
qed


lemma removed_nth:
  assumes "j < length ds" "i < length ds" "j \<noteq> i"
  shows "(take i ds @ drop (Suc i) ds) ! (if j < i then j else j - 1) = ds ! j"
proof (cases "j < i")
  case True
  then show ?thesis using assms by (simp add: nth_append)
next
  case False
  with assms have "i < j" by simp
  then have idx: "Suc i + (j - 1 - i) = j" by simp
  have ge: "\<not> j - 1 < i" using \<open>i < j\<close> by arith
  have "(take i ds @ drop (Suc i) ds) ! (j - 1) = drop (Suc i) ds ! (j - 1 - i)"
    using assms ge by (simp add: nth_append min_def)
  also have "\<dots> = ds ! (Suc i + (j - 1 - i))"
    using assms \<open>i < j\<close> by (intro nth_drop) simp
  finally show ?thesis using False idx by simp
qed

text \<open>
  C9 (asymmetric failure of the shaper). First part: when the label of a raw example converts
  to an integer outside [0,5), the lookup of the constructed key \<^verbatim>\<open>holding_<label>\<close> raises
  \<^verbatim>\<open>KeyError\<close> and shaping fails with it, so no normalized example is produced. Second part:
  when the label is in range and the selected field is present but another candidate field
  \<open>j\<close> is missing, shaping succeeds and both \<open>docs\<close> and \<open>hard_negatives\<close> hold \<^verbatim>\<open>None\<close> at the place
  of the missing passage.
\<close>

theorem shaper_asymmetric_failure:
  "(raw_example ex1 \<and> ex1 (ascii ''label'') = Some lbl1 \<and> py_format lbl1 = Inr suffix
      \<and> py_int lbl1 = Inr n \<and> (n < 0 \<or> 5 \<le> n) \<and> ex1 (ascii ''citing_prompt'') = Some q1
    \<longrightarrow> getitem ex1 (ascii ''holding_'' @ suffix) = Inl KeyError
        \<and> shape_example ex1 = Inl KeyError)
   \<and> (ex2 (ascii ''label'') = Some lbl2 \<and> label_index lbl2 i \<and> 0 \<le> i \<and> i < 5
      \<and> ex2 (ascii ''citing_prompt'') = Some q2 \<and> ex2 (all_labels ! nat i) = Some p
      \<and> j < 5 \<and> j \<noteq> nat i \<and> ex2 (all_labels ! j) = None
    \<longrightarrow> (\<exists>r. shape_example ex2 = Inr r \<and> label r = i \<and> relevant_passages r = [p]
          \<and> length (docs r) = 5 \<and> docs r ! j = ANone
          \<and> length (hard_negatives r) = 4
          \<and> hard_negatives r ! (if j < nat i then j else j - 1) = ANone))"
proof (intro conjI impI)
  assume a: "raw_example ex1 \<and> ex1 (ascii ''label'') = Some lbl1 \<and> py_format lbl1 = Inr suffix
      \<and> py_int lbl1 = Inr n \<and> (n < 0 \<or> 5 \<le> n) \<and> ex1 (ascii ''citing_prompt'') = Some q1"
  have none: "ex1 (ascii ''holding_'' @ suffix) = None"
  proof (rule ccontr)
    assume "ex1 (ascii ''holding_'' @ suffix) \<noteq> None"
    then obtain v where v: "ex1 (ascii ''holding_'' @ suffix) = Some v" by blast
    from a have raw: "raw_example ex1" by simp
    from selected_suffix_cases [OF raw v] obtain k where
      k: "0 \<le> k" "k < 5" and suffix: "suffix = ascii (str_int k)" by blast
    from a have "py_format lbl1 = Inr (ascii (str_int k))" "py_int lbl1 = Inr n"
      by (simp_all add: suffix)
    from label_of_suffix [OF this(1) k this(2)] have "n = k" by simp
    with k a show False by simp
  qed
  then show "getitem ex1 (ascii ''holding_'' @ suffix) = Inl KeyError"
    by (simp add: getitem_def)
  from a none show "shape_example ex1 = Inl KeyError"
    by (simp add: shape_example_def bind_res_def getitem_def)
next
  assume b: "ex2 (ascii ''label'') = Some lbl2 \<and> label_index lbl2 i \<and> 0 \<le> i \<and> i < 5
      \<and> ex2 (ascii ''citing_prompt'') = Some q2 \<and> ex2 (all_labels ! nat i) = Some p
      \<and> j < 5 \<and> j \<noteq> nat i \<and> ex2 (all_labels ! j) = None"
  let ?ds = "map (get_or_none ex2) all_labels"
  let ?r = "\<lparr>query = q2, docs = ?ds, label = i, relevant_passages = [p],
             hard_negatives = take (nat i) ?ds @ drop (Suc (nat i)) ?ds\<rparr>"
  have len: "length ?ds = 5" by (simp add: all_labels_def)
  from b have b1: "ex2 (ascii ''label'') = Some lbl2" and b2: "label_index lbl2 i"
    and b3: "0 \<le> i" "i < 5" and b4: "ex2 (ascii ''citing_prompt'') = Some q2"
    and b5: "ex2 (all_labels ! nat i) = Some p"
    by simp_all
  have res: "shape_example ex2 = Inr ?r"
    by (rule shape_example_result [OF b1 b2 b3 b4 b5])
  from b have b6: "j < 5" "j \<noteq> nat i" and b7: "ex2 (all_labels ! j) = None"
    by simp_all
  have ni: "nat i < 5" using b3 by simp
  have "?ds ! j = get_or_none ex2 (all_labels ! j)"
    using b6 by (intro nth_map) (simp add: all_labels_def)
  then have dj: "?ds ! j = ANone"
    using b7 by (simp add: get_or_none_def)
  have "(take (nat i) ?ds @ drop (Suc (nat i)) ?ds) ! (if j < nat i then j else j - 1) = ?ds ! j"
    using b6 ni len by (intro removed_nth) simp_all
  then have hj: "hard_negatives ?r ! (if j < nat i then j else j - 1) = ANone"
    using dj by simp
  have l4: "length (hard_negatives ?r) = 4" using ni len by simp
  show "\<exists>r. shape_example ex2 = Inr r \<and> label r = i \<and> relevant_passages r = [p]
          \<and> length (docs r) = 5 \<and> docs r ! j = ANone
          \<and> length (hard_negatives r) = 4
          \<and> hard_negatives r ! (if j < nat i then j else j - 1) = ANone"
    using res dj hj l4 len by (intro exI [of _ ?r]) simp
qed

theorem shaper_asymmetric_failure_witness:
  "shape_example (sample_example(ascii ''label'' \<mapsto> AInt 7)) = Inl KeyError
   \<and> (\<exists>r. shape_example (sample_example(ascii ''holding_1'' := None)) = Inr r
         \<and> docs r ! 1 = ANone \<and> hard_negatives r ! 1 = ANone)"
proof -
  let ?ex1 = "sample_example(ascii ''label'' \<mapsto> AInt 7)"
  let ?ex2 = "sample_example(ascii ''holding_1'' := None)"
  have raw: "raw_example ?ex1"
    by (auto simp: raw_example_def sample_example_def all_labels_def ascii_def split: if_splits)
  have h1: "raw_example ?ex1 \<and> ?ex1 (ascii ''label'') = Some (AInt 7)
      \<and> py_format (AInt 7) = Inr (ascii ''7'')
      \<and> py_int (AInt 7) = Inr 7 \<and> ((7::int) < 0 \<or> 5 \<le> (7::int))
      \<and> ?ex1 (ascii ''citing_prompt'') = Some (AStr (ascii ''which holding''))"
    using raw by (simp add: sample_example_def shape_defs)
  have h2: "?ex2 (ascii ''label'') = Some (AStr (ascii ''3'')) \<and> label_index (AStr (ascii ''3'')) 3
      \<and> 0 \<le> (3::int) \<and> (3::int) < 5
      \<and> ?ex2 (ascii ''citing_prompt'') = Some (AStr (ascii ''which holding''))
      \<and> ?ex2 (all_labels ! nat 3) = Some (AStr (ascii ''d''))
      \<and> (1::nat) < 5 \<and> 1 \<noteq> nat 3 \<and> ?ex2 (all_labels ! 1) = None"
    by (simp add: sample_example_def label_index_def shape_defs)
  note t = shaper_asymmetric_failure [of ?ex1 "AInt 7" "ascii ''7''" 7
      "AStr (ascii ''which holding'')" ?ex2 "AStr (ascii ''3'')" 3
      "AStr (ascii ''which holding'')" "AStr (ascii ''d'')" 1]
  have c1: "shape_example ?ex1 = Inl KeyError"
    using conjunct1 [OF t, THEN mp, OF h1] by simp
  have c2: "\<exists>r. shape_example ?ex2 = Inr r \<and> docs r ! 1 = ANone \<and> hard_negatives r ! 1 = ANone"
    using conjunct2 [OF t, THEN mp, OF h2] by auto
  show ?thesis using c1 c2 by simp
qed


text \<open>The loop shapes the first \<open>num_examples\<close> examples one by one, in order.\<close>

lemma shape_loop_rows:
  "shape_loop examples d = Inr d' \<Longrightarrow>
   \<exists>rows. d' = d @ rows \<and> list_all2 (\<lambda>example row. shape_example example = Inr row) examples rows"
proof (induction examples arbitrary: d)
  case Nil
  then show ?case by simp
next
  case (Cons example examples)
  from Cons.prems obtain row where row: "shape_example example = Inr row"
    and rest: "shape_loop examples (d @ [row]) = Inr d'"
    by (auto split: sum.splits)
  from Cons.IH [OF rest] obtain rows where
    "d' = (d @ [row]) @ rows" "list_all2 (\<lambda>example row. shape_example example = Inr row) examples rows"
    by blast
  then show ?case using row by (intro exI [of _ "row # rows"]) simp
qed

lemma shape_dataset_rows:
  assumes "shape_dataset iterable_dataset = Inr d"
  shows "list_all2 (\<lambda>example row. shape_example example = Inr row)
           (take num_examples iterable_dataset) d"
    and "length d = min (length iterable_dataset) 420"
proof -
  from shape_loop_rows [OF assms [unfolded shape_dataset_def]]
  show rows: "list_all2 (\<lambda>example row. shape_example example = Inr row)
           (take num_examples iterable_dataset) d"
    by simp
  from list_all2_lengthD [OF rows] show "length d = min (length iterable_dataset) 420"
    by (simp add: num_examples_def)
qed

section \<open>Properties of the split\<close>

lemma length_DataFrame: "length (DataFrame d) = length d"
  by (simp add: DataFrame_def)

lemma index_DataFrame: "map fst (DataFrame d) = [0..<length d]"
  by (simp add: DataFrame_def)

lemma split_slices:
  assumes "0 \<le> train" "0 \<le> valid" "train + valid \<le> int (length df)"
  shows "train_valid_test_split train valid test df =
           (take (nat train) df, take (nat valid) (drop (nat train) df),
            drop (nat train + nat valid) df)"
  using assms
  by (simp add: train_valid_test_split_def py_slice_def slice_bound_def Let_def min_def
      nat_add_distrib)


lemma DataFrame_take:
  assumes "k \<le> length d"
  shows "map fst (take k (DataFrame d)) = [0..<k]" "map snd (take k (DataFrame d)) = take k d"
  using assms by (simp_all add: DataFrame_def take_zip)

lemma DataFrame_drop:
  shows "map fst (drop k (DataFrame d)) = [k..<length d]"
    "map snd (drop k (DataFrame d)) = drop k d"
  by (simp_all add: DataFrame_def drop_zip)

lemma DataFrame_segment:
  assumes "a + b \<le> length d"
  shows "map fst (take b (drop a (DataFrame d))) = [a..<a + b]"
    "map snd (take b (drop a (DataFrame d))) = take b (drop a d)"
  using assms by (simp_all add: DataFrame_def drop_zip take_zip)

lemma distinct_index: "distinct (map fst (DataFrame d))"
  by (simp add: index_DataFrame)

lemma split_concat: "take a df @ take b (drop a df) @ drop (a + b) df = df"
  by (metis append.assoc append_take_drop_id take_add)

lemma row_index_upt: "map fst df = [a..<b] \<Longrightarrow> row_index df = {a..<b}"
  unfolding row_index_def by (metis atLeastLessThan_upt set_map)

text \<open>
  What the three slices are. For \<open>N\<close> rows and non-negative counts with
  \<open>train + valid + test \<le> N\<close>, they are contiguous, in original order and pairwise disjoint:
  train is rows [0, train), valid is rows [train, train+valid), and test is every row from
  train+valid to the end, [train+valid, N); the test count is not used. Their concatenation
  is the whole table; it is the prefix of length train+valid+test, and the test slice has
  \<open>test\<close> rows, only when train+valid+test = N.
\<close>

theorem splitter_remainder:
  assumes "0 \<le> train" "0 \<le> valid" "0 \<le> test" "train + valid + test \<le> int (length d)"
  shows "\<exists>tr va te.
      train_valid_test_split train valid test (DataFrame d) = (tr, va, te)
    \<and> map fst tr = [0..<nat train] \<and> map snd tr = take (nat train) d
    \<and> map fst va = [nat train..<nat train + nat valid]
    \<and> map snd va = take (nat valid) (drop (nat train) d)
    \<and> map fst te = [nat train + nat valid..<length d]
    \<and> map snd te = drop (nat train + nat valid) d
    \<and> row_index tr \<inter> row_index va = {} \<and> row_index tr \<inter> row_index te = {}
    \<and> row_index va \<inter> row_index te = {}
    \<and> tr @ va @ te = DataFrame d
    \<and> (train + valid + test = int (length d) \<longrightarrow>
         length te = nat test
       \<and> tr @ va @ te = take (nat train + nat valid + nat test) (DataFrame d))"
proof -
  let ?df = "DataFrame d"
  let ?a = "nat train" and ?b = "nat valid"
  let ?tr = "take ?a ?df" and ?va = "take ?b (drop ?a ?df)" and ?te = "drop (?a + ?b) ?df"
  have ab: "?a + ?b \<le> length d" using assms by linarith
  have split: "train_valid_test_split train valid test ?df = (?tr, ?va, ?te)"
    using assms by (intro split_slices) (simp_all add: length_DataFrame)
  have itr: "map fst ?tr = [0..<?a]" and str: "map snd ?tr = take ?a d"
    using ab by (simp_all add: DataFrame_take)
  have iva: "map fst ?va = [?a..<?a + ?b]" and sva: "map snd ?va = take ?b (drop ?a d)"
    using ab by (simp_all add: DataFrame_segment)
  have ite: "map fst ?te = [?a + ?b..<length d]" and ste: "map snd ?te = drop (?a + ?b) d"
    by (simp_all add: DataFrame_drop)
  have d1: "row_index ?tr \<inter> row_index ?va = {}"
    unfolding row_index_upt [OF itr] row_index_upt [OF iva] by auto
  have d2: "row_index ?tr \<inter> row_index ?te = {}"
    unfolding row_index_upt [OF itr] row_index_upt [OF ite] by auto
  have d3: "row_index ?va \<inter> row_index ?te = {}"
    unfolding row_index_upt [OF iva] row_index_upt [OF ite] by auto
  have cat: "?tr @ ?va @ ?te = ?df" by (rule split_concat)
  have full: "train + valid + test = int (length d) \<longrightarrow>
      length ?te = nat test \<and> ?tr @ ?va @ ?te = take (?a + ?b + nat test) ?df"
  proof
    assume "train + valid + test = int (length d)"
    then have n: "length d = ?a + ?b + nat test" using assms by linarith
    then have "length ?te = nat test" by (simp add: length_DataFrame)
    moreover have "take (?a + ?b + nat test) ?df = ?df"
      using n by (simp add: length_DataFrame)
    ultimately show "length ?te = nat test \<and> ?tr @ ?va @ ?te = take (?a + ?b + nat test) ?df"
      using cat by simp
  qed
  show ?thesis
    using split itr str iva sva ite ste d1 d2 d3 cat full by blast
qed

theorem splitter_remainder_witness:
  "train_valid_test_split 1 1 1 (DataFrame ''abc'')
     = ([(0, CHR ''a'')], [(1, CHR ''b'')], [(2, CHR ''c'')])"
  using splitter_remainder [of 1 1 1 "''abc''"]
  by (simp add: DataFrame_def train_valid_test_split_def py_slice_def slice_bound_def)


text \<open>
  C3 (splitter scenario). With exactly 420 rows and the notebook's counts 256, 154 and 10,
  the three slices have 256, 154 and 10 rows and no index label lies in two of them.
\<close>

theorem splitter_scenario:
  assumes "length d = 420"
  shows "\<exists>df_train df_valid df_test.
      train_valid_test_split train_num valid_num test_num (DataFrame d)
        = (df_train, df_valid, df_test)
    \<and> length df_train = 256 \<and> length df_valid = 154 \<and> length df_test = 10
    \<and> row_index df_train \<inter> row_index df_valid = {}
    \<and> row_index df_train \<inter> row_index df_test = {}
    \<and> row_index df_valid \<inter> row_index df_test = {}"
proof -
  let ?df = "DataFrame d"
  let ?tr = "take 256 ?df" and ?va = "take 154 (drop 256 ?df)" and ?te = "drop 410 ?df"
  have split: "train_valid_test_split train_num valid_num test_num ?df = (?tr, ?va, ?te)"
    using assms split_slices [of train_num valid_num ?df test_num]
    by (simp add: train_num_def valid_num_def length_DataFrame)
  have itr: "map fst ?tr = [0..<256]"
    using assms DataFrame_take(1) [of 256 d] by simp
  have iva: "map fst ?va = [256..<410]"
    using assms DataFrame_segment(1) [of 256 154 d] by simp
  have ite: "map fst ?te = [410..<420]"
    using assms DataFrame_drop(1) [of 410 d] by simp
  have d1: "row_index ?tr \<inter> row_index ?va = {}"
    unfolding row_index_upt [OF itr] row_index_upt [OF iva] by auto
  have d2: "row_index ?tr \<inter> row_index ?te = {}"
    unfolding row_index_upt [OF itr] row_index_upt [OF ite] by auto
  have d3: "row_index ?va \<inter> row_index ?te = {}"
    unfolding row_index_upt [OF iva] row_index_upt [OF ite] by auto
  have lens: "length ?tr = 256" "length ?va = 154" "length ?te = 10"
    using assms by (simp_all add: length_DataFrame)
  show ?thesis using split lens d1 d2 d3 by blast
qed

theorem splitter_scenario_witness:
  "length (replicate 420 ANone) = 420
   \<and> length (fst (train_valid_test_split train_num valid_num test_num
        (DataFrame (replicate 420 ANone)))) = 256
   \<and> length (fst (snd (train_valid_test_split train_num valid_num test_num
        (DataFrame (replicate 420 ANone))))) = 154
   \<and> length (snd (snd (train_valid_test_split train_num valid_num test_num
        (DataFrame (replicate 420 ANone))))) = 10"
  using splitter_scenario [of "replicate 420 ANone"] by auto


section \<open>Properties of the evaluation\<close>

lemma py_sum_bounds: "0 \<le> py_sum bs \<and> py_sum bs \<le> int (length bs)"
  by (induction bs) (auto simp: py_sum_def)

lemma py_sum_all: "\<forall>b\<in>set bs. b \<Longrightarrow> py_sum bs = int (length bs)"
  by (induction bs) (auto simp: py_sum_def)

lemma py_sum_none: "\<forall>b\<in>set bs. \<not> b \<Longrightarrow> py_sum bs = 0"
  by (induction bs) (auto simp: py_sum_def)

lemma py_sum_map_count: "py_sum (map P ps) = int (length (filter P ps))"
  by (induction ps) (simp_all add: py_sum_def)

lemma py_sum_count:
  "py_sum (series_eq xs ys) = int (length (filter (\<lambda>(x, y). x = y) (zip xs ys)))"
  unfolding series_eq_def by (rule py_sum_map_count)

lemma accuracy_value:
  assumes "df_test \<noteq> []"
  shows "accuracy fl prediction df_test =
     Inr (fl (of_int (py_sum (series_eq prediction (map (label \<circ> snd) df_test)))
              / of_int (int (length df_test))))"
  using assms by (simp add: accuracy_def py_truediv_def)

text \<open>
  C6 (accuracy bounds and extremes). For a non-empty test set with one prediction per row the
  accuracy is computed (no exception) and lies in [0,1]; it is exactly 1 when every prediction
  equals the row's label and exactly 0 when none does.
\<close>

theorem accuracy_bounds:
  assumes fl: "mono fl" "fl 0 = 0" "fl 1 = 1"
    and ne: "df_test \<noteq> []" and len: "length prediction = length df_test"
  shows "\<exists>a. accuracy fl prediction df_test = Inr a \<and> 0 \<le> a \<and> a \<le> 1
     \<and> ((\<forall>i<length df_test. prediction ! i = label (snd (df_test ! i))) \<longrightarrow> a = 1)
     \<and> ((\<forall>i<length df_test. prediction ! i \<noteq> label (snd (df_test ! i))) \<longrightarrow> a = 0)"
proof -
  let ?labels = "map (label \<circ> snd) df_test"
  let ?bs = "series_eq prediction ?labels"
  let ?n = "int (length df_test)"
  let ?q = "(of_int (py_sum ?bs) :: rat) / of_int ?n"
  have n: "0 < ?n" using ne by simp
  have lbs: "length ?bs = length df_test" using len by (simp add: series_eq_def)
  have nth: "\<And>i. i < length df_test \<Longrightarrow> ?bs ! i = (prediction ! i = label (snd (df_test ! i)))"
    using len by (simp add: series_eq_def)
  have k: "0 \<le> py_sum ?bs" "py_sum ?bs \<le> ?n"
    using py_sum_bounds [of ?bs] lbs by simp_all
  have q: "0 \<le> ?q" "?q \<le> 1" using k n by simp_all
  have "fl 0 \<le> fl ?q" "fl ?q \<le> fl 1"
    using q fl(1) by (auto dest: monoD)
  then have b: "0 \<le> fl ?q" "fl ?q \<le> 1" using fl by simp_all
  have all: "(\<forall>i<length df_test. prediction ! i = label (snd (df_test ! i))) \<longrightarrow> fl ?q = 1"
  proof
    assume a: "\<forall>i<length df_test. prediction ! i = label (snd (df_test ! i))"
    have "\<forall>b\<in>set ?bs. b"
      using a nth lbs by (metis in_set_conv_nth)
    then have "py_sum ?bs = ?n" using py_sum_all [of ?bs] lbs by simp
    then have "?q = 1" using n by simp
    then have "fl ?q = fl 1" by (rule arg_cong)
    then show "fl ?q = 1" by (simp only: fl(3))
  qed
  have none: "(\<forall>i<length df_test. prediction ! i \<noteq> label (snd (df_test ! i))) \<longrightarrow> fl ?q = 0"
  proof
    assume a: "\<forall>i<length df_test. prediction ! i \<noteq> label (snd (df_test ! i))"
    have "\<forall>b\<in>set ?bs. \<not> b"
      using a nth lbs by (metis in_set_conv_nth)
    then have "py_sum ?bs = 0" by (rule py_sum_none)
    then have "?q = 0" by simp
    then have "fl ?q = fl 0" by (rule arg_cong)
    then show "fl ?q = 0" by (simp only: fl(2))
  qed
  show ?thesis
    using accuracy_value [OF ne, of fl prediction] b all none by simp
qed

lemma fixed53_mono: "mono fixed53"
  by (rule monoI) (simp add: fixed53_def divide_right_mono round_mono)

lemma fixed53_0: "fixed53 0 = 0" and fixed53_1: "fixed53 1 = 1"
  by (simp_all add: fixed53_def)

theorem accuracy_bounds_witness:
  "accuracy fixed53 [3, 4] (DataFrame [sample_row 3, sample_row 4]) = Inr 1
   \<and> accuracy fixed53 [0, 1] (DataFrame [sample_row 3, sample_row 4]) = Inr 0"
proof -
  let ?df = "DataFrame [sample_row 3, sample_row 4]"
  have ne: "?df \<noteq> []" by (simp add: DataFrame_def)
  have len: "length [3, 4 :: int] = length ?df" "length [0, 1 :: int] = length ?df"
    by (simp_all add: DataFrame_def)
  have all: "\<forall>i<length ?df. [3, 4] ! i = label (snd (?df ! i))"
    by (simp add: DataFrame_def sample_row_def less_Suc_eq)
  have none: "\<forall>i<length ?df. [0, 1] ! i \<noteq> label (snd (?df ! i))"
    by (simp add: DataFrame_def sample_row_def less_Suc_eq)
  from accuracy_bounds [OF fixed53_mono fixed53_0 fixed53_1 ne len(1)] all
  have "accuracy fixed53 [3, 4] ?df = Inr 1" by auto
  moreover from accuracy_bounds [OF fixed53_mono fixed53_0 fixed53_1 ne len(2)] none
  have "accuracy fixed53 [0, 1] ?df = Inr 0" by auto
  ultimately show ?thesis by simp
qed


lemma get_prediction_success:
  assumes "get_prediction co mdl item s = (Inr p, s1)"
  shows "\<exists>results. results \<noteq> [] \<and> p = index (hd results)
     \<and> calls s1 = calls s @ [(rerank_arguments mdl item, Inr results)]"
  using assms
  by (auto simp: get_prediction_def Let_def bind_res_def
      split: prod.splits sum.splits list.splits)

lemma apply_each_get_prediction:
  "apply_each (get_prediction co mdl) df s = (Inr prediction, s1) \<Longrightarrow>
   \<exists>responses. length responses = length df
     \<and> calls s1 = calls s @ zip (map (rerank_arguments mdl \<circ> snd) df) (map Inr responses)
     \<and> (\<forall>results\<in>set responses. results \<noteq> [])
     \<and> prediction = zip (map fst df) (map (index \<circ> hd) responses)"
proof (induction df arbitrary: s prediction)
  case Nil
  then show ?case by simp
next
  case (Cons ir rest)
  obtain idx row where ir: "ir = (idx, row)" by (cases ir)
  from Cons.prems obtain p s2 ps where
    first: "get_prediction co mdl row s = (Inr p, s2)"
    and others: "apply_each (get_prediction co mdl) rest s2 = (Inr ps, s1)"
    and pred: "prediction = (idx, p) # ps"
    unfolding ir by (auto split: prod.splits sum.splits)
  from first obtain results where res: "results \<noteq> []" "p = index (hd results)"
    and c2: "calls s2 = calls s @ [(rerank_arguments mdl row, Inr results)]"
    using get_prediction_success by blast
  from Cons.IH [OF others] obtain responses where
    r: "length responses = length rest"
    "calls s1 = calls s2 @ zip (map (rerank_arguments mdl \<circ> snd) rest) (map Inr responses)"
    "\<forall>results\<in>set responses. results \<noteq> []"
    "ps = zip (map fst rest) (map (index \<circ> hd) responses)"
    by blast
  show ?case
    using r res c2 pred unfolding ir
    by (intro exI [of _ "results # responses"]) (simp add: comp_def)
qed

lemma apply_rows_get_prediction:
  assumes "apply_rows (get_prediction co mdl) df s = (Inr prediction, s1)"
  shows "\<exists>responses. length responses = length df
     \<and> calls s1 = calls s @ zip (map (rerank_arguments mdl \<circ> snd) df) (map Inr responses)
     \<and> (\<forall>results\<in>set responses. results \<noteq> [])
     \<and> prediction = zip (map fst df) (map (index \<circ> hd) responses)"
proof -
  from assms have "apply_each (get_prediction co mdl) df s = (Inr prediction, s1)"
    by (simp add: apply_rows_def split: if_splits)
  then show ?thesis by (rule apply_each_get_prediction)
qed

lemma shape_example_fields:
  assumes "shape_example example = Inr r"
  shows "getitem example (ascii ''citing_prompt'') = Inr (query r)"
    and "docs r = map (get_or_none example) all_labels"
    and "length (docs r) = 5"
  using assms
  by (auto simp: shape_example_def bind_res_def Let_def all_labels_def split: sum.splits)

text \<open>
  C7 (evaluator, the ranking call as an oracle). First part: when the evaluation of a test
  set of shaped examples returns an accuracy, it has made exactly one call per test row, in
  row order, each with the configured model, the example's query, its five candidate fields
  in original order and \<open>top_n = 1\<close>; every response was non-empty, the prediction of a row is
  the index of the first result of its response, and the accuracy is the number of rows
  whose prediction equals the label, divided by the number of rows (rounded by \<open>fl\<close>).
  Second part: on a non-empty test set, with a service that answers every request with a
  non-empty result list, the evaluation does return an accuracy.
\<close>

theorem evaluator_requests:
  "(test_accuracy fl co mdl df_test s = (Inr acc, s1)
      \<and> list_all2 (\<lambda>example row. shape_example example = Inr (snd row)) examples df_test
    \<longrightarrow> (\<exists>responses. length responses = length df_test
         \<and> calls s1 = calls s @ zip
              (map (\<lambda>example. \<lparr>model = mdl,
                      rerank_query = get_or_none example (ascii ''citing_prompt''),
                      documents = map (get_or_none example) all_labels, top_n = 1\<rparr>) examples)
              (map Inr responses)
         \<and> (\<forall>results\<in>set responses. results \<noteq> [])
         \<and> accuracy fl (map (index \<circ> hd) responses) df_test = Inr acc
         \<and> acc = fl (of_nat (length (filter (\<lambda>(results, row). index (hd results) = label (snd row))
                                  (zip responses df_test)))
                     / of_nat (length df_test))))
   \<and> (df_test \<noteq> [] \<and> (\<forall>request w. \<exists>results w1. co request w = (Inr results, w1) \<and> results \<noteq> [])
    \<longrightarrow> (\<exists>acc s1. test_accuracy fl co mdl df_test s = (Inr acc, s1)))"
proof (intro conjI impI)
  assume a: "test_accuracy fl co mdl df_test s = (Inr acc, s1)
      \<and> list_all2 (\<lambda>example row. shape_example example = Inr (snd row)) examples df_test"
  then obtain prediction where
    run: "apply_rows (get_prediction co mdl) df_test s = (Inr prediction, s1)"
    and acc: "accuracy fl (map snd prediction) df_test = Inr acc"
    by (auto simp: test_accuracy_def split: prod.splits sum.splits)
  from apply_rows_get_prediction [OF run] obtain responses where
    len: "length responses = length df_test"
    and cs: "calls s1 = calls s @ zip (map (rerank_arguments mdl \<circ> snd) df_test) (map Inr responses)"
    and ne: "\<forall>results\<in>set responses. results \<noteq> []"
    and pr: "prediction = zip (map fst df_test) (map (index \<circ> hd) responses)"
    by blast
  have preds: "map snd prediction = map (index \<circ> hd) responses"
    using len unfolding pr by simp
  from a have shaped: "list_all2 (\<lambda>example row. shape_example example = Inr (snd row)) examples df_test"
    by simp
  have reqs: "map (rerank_arguments mdl \<circ> snd) df_test =
      map (\<lambda>example. \<lparr>model = mdl, rerank_query = get_or_none example (ascii ''citing_prompt''),
              documents = map (get_or_none example) all_labels, top_n = 1\<rparr>) examples"
    using shaped
  proof (induction examples df_test rule: list_all2_induct)
    case Nil
    then show ?case by simp
  next
    case (Cons example examples row rows)
    from shape_example_fields(1,2) [OF Cons.hyps(1)]
    have "rerank_arguments mdl (snd row) =
        \<lparr>model = mdl, rerank_query = get_or_none example (ascii ''citing_prompt''),
         documents = map (get_or_none example) all_labels, top_n = 1\<rparr>"
      by (auto simp: rerank_arguments_def getitem_def get_or_none_def split: option.splits)
    then show ?case using Cons.IH by simp
  qed
  have nonempty: "df_test \<noteq> []"
    using acc by (auto simp: accuracy_def py_truediv_def split: if_splits)
  have count: "py_sum (series_eq (map (index \<circ> hd) responses) (map (label \<circ> snd) df_test))
      = int (length (filter (\<lambda>(results, row). index (hd results) = label (snd row))
                       (zip responses df_test)))"
  proof -
    have "series_eq (map (index \<circ> hd) responses) (map (label \<circ> snd) df_test)
        = map (\<lambda>(results, row). index (hd results) = label (snd row)) (zip responses df_test)"
      by (simp add: series_eq_def zip_map_map comp_def case_prod_unfold)
    then show ?thesis by (simp only: py_sum_map_count)
  qed
  have val: "acc = fl (of_nat (length (filter (\<lambda>(results, row). index (hd results) = label (snd row))
                                  (zip responses df_test)))
                     / of_nat (length df_test))"
    using acc unfolding preds accuracy_value [OF nonempty] count by simp
  show "\<exists>responses. length responses = length df_test
         \<and> calls s1 = calls s @ zip
              (map (\<lambda>example. \<lparr>model = mdl,
                      rerank_query = get_or_none example (ascii ''citing_prompt''),
                      documents = map (get_or_none example) all_labels, top_n = 1\<rparr>) examples)
              (map Inr responses)
         \<and> (\<forall>results\<in>set responses. results \<noteq> [])
         \<and> accuracy fl (map (index \<circ> hd) responses) df_test = Inr acc
         \<and> acc = fl (of_nat (length (filter (\<lambda>(results, row). index (hd results) = label (snd row))
                                  (zip responses df_test)))
                     / of_nat (length df_test))"
    using len cs ne acc val unfolding preds reqs by blast
next
  assume b: "df_test \<noteq> [] \<and> (\<forall>request w. \<exists>results w1. co request w = (Inr results, w1) \<and> results \<noteq> [])"
  have step: "\<exists>p s2. get_prediction co mdl item s0 = (Inr p, s2)" for item s0
  proof -
    from b obtain results w1 where
      "co (rerank_arguments mdl item) (world s0) = (Inr results, w1)" "results \<noteq> []"
      by blast
    then show ?thesis
      by (cases results) (simp_all add: get_prediction_def bind_res_def)
  qed
  have rows: "\<exists>ps s2. apply_each (get_prediction co mdl) df s0 = (Inr ps, s2)" for df s0
  proof (induction df arbitrary: s0)
    case Nil
    then show ?case by simp
  next
    case (Cons ir rest)
    obtain idx row where ir: "ir = (idx, row)" by (cases ir)
    from step obtain p s2 where p: "get_prediction co mdl row s0 = (Inr p, s2)" by blast
    from Cons.IH obtain ps s3 where "apply_each (get_prediction co mdl) rest s2 = (Inr ps, s3)"
      by blast
    then show ?case using p unfolding ir by simp
  qed
  from rows obtain ps s2 where "apply_each (get_prediction co mdl) df_test s = (Inr ps, s2)"
    by blast
  then have "apply_rows (get_prediction co mdl) df_test s = (Inr ps, s2)"
    using b by (simp add: apply_rows_def)
  then show "\<exists>acc s1. test_accuracy fl co mdl df_test s = (Inr acc, s1)"
    using b by (simp add: test_accuracy_def accuracy_def py_truediv_def)
qed


lemma shape_sample_3: "shape_example sample_example = Inr (sample_row 3)"
  by (simp add: sample_example_def sample_row_def shape_defs)
lemma shape_sample_1: "shape_example (sample_example(ascii ''label'' \<mapsto> AInt 1)) = Inr (sample_row 1)"
  by (simp add: sample_example_def sample_row_def shape_defs)

theorem evaluator_requests_witness:
  "\<exists>s1. test_accuracy fixed53 always_fourth baseline_model
          (DataFrame [sample_row 3, sample_row 1]) \<lparr>calls = [], world = ()\<rparr> = (Inr (1 / 2), s1)
        \<and> map fst (calls s1) = map (rerank_arguments baseline_model) [sample_row 3, sample_row 1]"
proof -
  let ?df = "DataFrame [sample_row 3, sample_row 1]"
  let ?s = "\<lparr>calls = [], world = ()\<rparr>"
  let ?examples = "[sample_example, sample_example(ascii ''label'' \<mapsto> AInt 1)]"
  note t = evaluator_requests [of fixed53 always_fourth baseline_model ?df ?s _ _ ?examples]
  have h2: "?df \<noteq> [] \<and> (\<forall>request w. \<exists>results w1.
      always_fourth request w = (Inr results, w1) \<and> results \<noteq> [])"
    by (simp add: DataFrame_def always_fourth_def)
  from conjunct2 [OF t, THEN mp, OF h2] obtain acc s1 where
    run: "test_accuracy fixed53 always_fourth baseline_model ?df ?s = (Inr acc, s1)"
    by blast
  have shaped: "list_all2 (\<lambda>example row. shape_example example = Inr (snd row)) ?examples ?df"
    by (simp add: DataFrame_def shape_sample_3 shape_sample_1)
  from conjunct1 [OF evaluator_requests [of fixed53 always_fourth baseline_model ?df ?s acc s1 ?examples],
      THEN mp, OF conjI [OF run shaped]]
  obtain responses where r: "length responses = length ?df"
    "calls s1 = calls ?s @ zip
       (map (\<lambda>example. \<lparr>model = baseline_model,
               rerank_query = get_or_none example (ascii ''citing_prompt''),
               documents = map (get_or_none example) all_labels, top_n = 1\<rparr>) ?examples)
       (map Inr responses)"
    by blast
  have "acc = 1 / 2"
    using run
    by (simp add: test_accuracy_def apply_rows_def get_prediction_def always_fourth_def bind_res_def
        DataFrame_def accuracy_def py_truediv_def py_sum_def series_eq_def sample_row_def
        fixed53_def)
  moreover have "map fst (calls s1) = map (rerank_arguments baseline_model) [sample_row 3, sample_row 1]"
    using r by (cases responses; cases "tl responses")
      (simp_all add: DataFrame_def rerank_arguments_def sample_row_def sample_example_def
        get_or_none_def all_labels_def ascii_def)
  ultimately show ?thesis using run by simp
qed


section \<open>Properties of the serialization\<close>

lemma hex_value_digit: "d < 16 \<Longrightarrow> hex_value (hex_digit d) = Some d"
  by (auto simp: hex_value_def hex_digit_def)

lemma horner16:
  "n = 16 * q1 + d \<Longrightarrow> q1 = 16 * q2 + c \<Longrightarrow> q2 = 16 * a + b
     \<Longrightarrow> ((a * 16 + b) * 16 + c) * 16 + d = (n::nat)"
  by simp

lemma hex4_value:
  assumes "n < 65536"
  shows "((n div 4096 mod 16 * 16 + n div 256 mod 16) * 16 + n div 16 mod 16) * 16 + n mod 16
     = (n::nat)"
proof -
  have d1: "n div 16 div 16 = n div 256" and d2: "n div 256 div 16 = n div 4096"
    by (simp_all add: div_mult2_eq [symmetric])
  have e0: "n = 16 * (n div 16) + n mod 16" by simp
  have e1: "n div 16 = 16 * (n div 256) + n div 16 mod 16"
    using mult_div_mod_eq [of 16 "n div 16"] d1 by simp
  have e2: "n div 256 = 16 * (n div 4096) + n div 256 mod 16"
    using mult_div_mod_eq [of 16 "n div 256"] d2 by simp
  have "n div 4096 < 16" using assms by (simp add: div_less_iff_less_mult)
  then have e3: "n div 4096 mod 16 = n div 4096" by simp
  show ?thesis unfolding e3 by (rule horner16 [OF e0 e1 e2])
qed

lemma escape_u_digits:
  assumes "a < 16" "b < 16" "c < 16" "d < 16"
  shows "escape_u (hex_digit a # hex_digit b # hex_digit c # hex_digit d # r)
     = Some (((a * 16 + b) * 16 + c) * 16 + d, r)"
  using assms by (simp add: escape_u_def hex_value_digit)

lemma escape_u_hex4:
  assumes "n < 65536"
  shows "escape_u (hex4 n @ r) = Some (n, r)"
proof -
  have "escape_u (hex4 n @ r)
      = Some (((n div 4096 mod 16 * 16 + n div 256 mod 16) * 16 + n div 16 mod 16) * 16
              + n mod 16, r)"
    unfolding hex4_def append.simps by (rule escape_u_digits) simp_all
  then show ?thesis unfolding hex4_value [OF assms] .
qed

lemma unicode_escape_bmp:
  assumes "n < 65536" "\<not> (55296 \<le> n \<and> n \<le> 56319)"
  shows "unicode_escape (hex4 n @ r) = Some (n, r)"
proof -
  from assms(2) have neg: "\<not> (55296 \<le> n \<and> n \<le> 56319 \<and> take 2 r = [92, 117])"
    by blast
  show ?thesis
    unfolding unicode_escape_def escape_u_hex4 [OF assms(1)]
    by (simp only: option.simps prod.simps if_not_P [OF neg])
qed

lemma unicode_escape_pair:
  assumes "65536 \<le> c" "c < 1114112"
  shows "unicode_escape (hex4 (55296 + (c - 65536) div 1024 mod 1024) @
           u_escape (56320 + (c - 65536) mod 1024) @ r) = Some (c, r)"
proof -
  let ?v = "c - 65536"
  let ?hi = "55296 + ?v div 1024 mod 1024" and ?lo = "56320 + ?v mod 1024"
  have v: "?v div 1024 < 1024" using assms by simp
  have hi: "?hi < 65536" "55296 \<le> ?hi" "?hi \<le> 56319" using v by simp_all
  have lo: "?lo < 65536" "56320 \<le> ?lo" "?lo \<le> 57343" by simp_all
  have join: "65536 + (?hi - 55296) * 1024 + (?lo - 56320) = c"
    using assms v by simp
  have "unicode_escape (hex4 ?hi @ u_escape ?lo @ r)
      = Some (65536 + (?hi - 55296) * 1024 + (?lo - 56320), r)"
    unfolding unicode_escape_def u_escape_def
    using hi lo by (simp add: escape_u_hex4)
  then show ?thesis unfolding join .
qed

lemma scanstring_escape_char:
  assumes "unicode_scalar c"
  shows "scanstring (escape_char c @ rest) = cons_char c (scanstring rest)"
proof -
  consider "c = 34" | "c = 92" | "c = 10" | "c = 13" | "c = 9" | "c = 12" | "c = 8"
    | "32 \<le> c" "c \<le> 126" "c \<noteq> 34" "c \<noteq> 92"
    | "c < 32" "c \<noteq> 10" "c \<noteq> 13" "c \<noteq> 9" "c \<noteq> 12" "c \<noteq> 8"
    | "126 < c" "c < 65536"
    | "65536 \<le> c"
    by linarith
  then show ?thesis
  proof cases
    case 8
    then show ?thesis by (simp add: escape_char_def scanstring.simps)
  next
    case 9
    then have "escape_char c = u_escape c" by (simp add: escape_char_def)
    moreover have "unicode_escape (hex4 c @ rest) = Some (c, rest)"
      using 9 by (intro unicode_escape_bmp) simp_all
    ultimately show ?thesis by (simp add: u_escape_def scanstring.simps)
  next
    case 10
    then have "escape_char c = u_escape c" by (simp add: escape_char_def)
    moreover have "unicode_escape (hex4 c @ rest) = Some (c, rest)"
      using 10 assms by (intro unicode_escape_bmp) (auto simp: unicode_scalar_def)
    ultimately show ?thesis by (simp add: u_escape_def scanstring.simps)
  next
    case 11
    then have "escape_char c = u_escape (55296 + (c - 65536) div 1024 mod 1024)
         @ u_escape (56320 + (c - 65536) mod 1024)"
      by (simp add: escape_char_def)
    moreover have "unicode_escape (hex4 (55296 + (c - 65536) div 1024 mod 1024) @
           u_escape (56320 + (c - 65536) mod 1024) @ rest) = Some (c, rest)"
      using 11 assms by (intro unicode_escape_pair) (simp_all add: unicode_scalar_def)
    ultimately show ?thesis by (simp add: u_escape_def [of "55296 + _"] scanstring.simps)
  qed (simp_all add: escape_char_def scanstring.simps backslash_def)
qed

lemma scanstring_escaped:
  assumes "unicode_text s"
  shows "scanstring (concat (map escape_char s) @ 34 # rest) = Some (s, rest)"
  using assms
proof (induction s)
  case Nil
  then show ?case by (simp add: scanstring.simps)
next
  case (Cons c s)
  then have "unicode_scalar c" "unicode_text s" by (simp_all add: unicode_text_def)
  then show ?case
    using Cons.IH scanstring_escape_char [of c "concat (map escape_char s) @ 34 # rest"]
    by (simp add: cons_char_def)
qed

lemma scanstring_basestring:
  assumes "unicode_text s"
  shows "py_encode_basestring_ascii s @ rest = 34 # concat (map escape_char s) @ 34 # rest"
    and "scanstring (tl (py_encode_basestring_ascii s @ rest)) = Some (s, rest)"
  using scanstring_escaped [OF assms] by (simp_all add: py_encode_basestring_ascii_def)

lemma digit_codes: "map of_char ''0123456789'' = map (\<lambda>d. 48 + d) [0..<10::nat]"
  by code_simp

lemma of_char_digit:
  assumes "d < 10"
  shows "of_char (digit_char d) = 48 + d"
proof -
  have "of_char (digit_char d) = map of_char ''0123456789'' ! d"
    unfolding digit_char_def using assms by (intro nth_map [symmetric]) simp
  also have "\<dots> = 48 + d"
    unfolding digit_codes using assms by simp
  finally show ?thesis .
qed

lemma ascii_str_nat_rec:
  "ascii (str_nat m) =
     (if m < 10 then [48 + m] else ascii (str_nat (m div 10)) @ [48 + m mod 10])"
  by (subst str_nat.simps) (simp add: ascii_def of_char_digit)

lemma str_nat_digits: "c \<in> set (ascii (str_nat m)) \<Longrightarrow> is_digit c"
proof (induction m arbitrary: c rule: str_nat.induct)
  case (1 n)
  show ?case
  proof (cases "n < 10")
    case True
    with "1.prems" show ?thesis by (simp add: ascii_str_nat_rec [of n] is_digit_def)
  next
    case False
    with "1.prems" have "c \<in> set (ascii (str_nat (n div 10))) \<or> c = 48 + n mod 10"
      by (auto simp: ascii_str_nat_rec [of n])
    then show ?thesis using "1.IH" [OF False] by (auto simp: is_digit_def)
  qed
qed

lemma digits_int_snoc: "digits_int (ds @ [c]) = 10 * digits_int ds + (c - 48)"
  by (simp add: digits_int_def)

lemma digits_int_str_nat: "digits_int (ascii (str_nat m)) = m"
proof (induction m rule: str_nat.induct)
  case (1 n)
  show ?case
  proof (cases "n < 10")
    case True
    then show ?thesis by (simp add: ascii_str_nat_rec [of n] digits_int_def)
  next
    case False
    then show ?thesis
      using "1.IH" [OF False] by (simp add: ascii_str_nat_rec [of n] digits_int_snoc)
  qed
qed

lemma ascii_str_nat_nonempty: "ascii (str_nat m) \<noteq> []"
  by (simp add: ascii_def str_nat_nonempty)

lemma str_nat_leading:
  "0 < m \<Longrightarrow> 49 \<le> hd (ascii (str_nat m)) \<and> hd (ascii (str_nat m)) \<le> 57"
proof (induction m rule: str_nat.induct)
  case (1 n)
  show ?case
  proof (cases "n < 10")
    case True
    with "1.prems" show ?thesis by (simp add: ascii_str_nat_rec [of n])
  next
    case False
    then have "0 < n div 10" by simp
    from "1.IH" [OF False this] show ?thesis
      using False ascii_str_nat_nonempty [of "n div 10"]
      by (simp add: ascii_str_nat_rec [of n])
  qed
qed

lemma delimited_head:
  assumes "delimited (c # r)"
  shows "\<not> is_digit c" "c \<noteq> 46" "c \<noteq> 101" "c \<noteq> 69"
  using assms by (auto simp: delimited_def is_digit_def is_ws_def)

lemma delimited_not_float: "delimited r \<Longrightarrow> \<not> float_tail r"
proof (cases r)
  case Nil
  then show ?thesis by (simp add: float_tail_def)
next
  case (Cons c rest)
  assume "delimited r"
  from delimited_head(2-4) [OF this [unfolded Cons]] show ?thesis
    unfolding Cons by (simp add: float_tail_def)
qed

lemma delimited_span:
  assumes "delimited r"
  shows "takeWhile is_digit r = []" "dropWhile is_digit r = r"
proof -
  have "takeWhile is_digit r = [] \<and> dropWhile is_digit r = r"
  proof (cases r)
    case Nil
    then show ?thesis by simp
  next
    case (Cons c rest)
    from delimited_head(1) [OF assms [unfolded Cons]] show ?thesis
      unfolding Cons by simp
  qed
  then show "takeWhile is_digit r = []" "dropWhile is_digit r = r" by simp_all
qed

lemma digits_span:
  assumes "delimited r"
  shows "takeWhile is_digit (ascii (str_nat m) @ r) = ascii (str_nat m)"
    and "dropWhile is_digit (ascii (str_nat m) @ r) = r"
proof -
  have d: "\<And>c. c \<in> set (ascii (str_nat m)) \<Longrightarrow> is_digit c" by (rule str_nat_digits)
  show "takeWhile is_digit (ascii (str_nat m) @ r) = ascii (str_nat m)"
    by (simp only: takeWhile_append2 [OF d] delimited_span [OF assms] append_Nil2)
  show "dropWhile is_digit (ascii (str_nat m) @ r) = r"
    by (simp only: dropWhile_append2 [OF d] delimited_span [OF assms])
qed

lemma match_number_positive:
  assumes "0 < m" "delimited r" "length (str_nat m) \<le> int_max_str_digits"
  shows "match_number (ascii (str_nat m) @ r) = Inr (Atom (AInt (int m)), r)"
    and "match_number (45 # ascii (str_nat m) @ r) = Inr (Atom (AInt (- int m)), r)"
proof -
  obtain h t where ht: "ascii (str_nat m) = h # t"
    using ascii_str_nat_nonempty [of m] by (cases "ascii (str_nat m)") simp_all
  have h: "49 \<le> h" "h \<le> 57" using str_nat_leading [OF assms(1)] ht by simp_all
  have len: "length (ascii (str_nat m)) \<le> int_max_str_digits"
    using assms(3) by (simp add: ascii_def)
  have fin: "finish_number neg (ascii (str_nat m)) r =
      Inr (Atom (AInt (if neg then - int m else int m)), r)" for neg
    using len delimited_not_float [OF assms(2)]
    by (simp add: finish_number_def digits_int_str_nat)
  have span: "takeWhile is_digit (h # t @ r) = h # t" "dropWhile is_digit (h # t @ r) = r"
    using digits_span [OF assms(2), of m] unfolding ht by simp_all
  show "match_number (ascii (str_nat m) @ r) = Inr (Atom (AInt (int m)), r)"
    using h fin [of False] span unfolding ht by (simp add: match_number_def)
  show "match_number (45 # ascii (str_nat m) @ r) = Inr (Atom (AInt (- int m)), r)"
    using h fin [of True] span unfolding ht by (simp add: match_number_def)
qed

lemma match_number_zero:
  assumes "delimited r"
  shows "match_number (48 # r) = Inr (Atom (AInt 0), r)"
  using delimited_not_float [OF assms]
  by (simp add: match_number_def finish_number_def digits_int_def int_max_str_digits_def)

lemma value_start_simps:
  assumes "value_start c"
  shows "\<not> is_ws c" "c \<noteq> 93" "c \<noteq> 125" "c \<noteq> 44" "c \<noteq> 58"
  using assms by (auto simp: value_start_def is_ws_def is_digit_def)

lemma encode_atom_head: "\<exists>c cs. encode_atom a = c # cs \<and> value_start c"
proof (cases a)
  case ANone
  then show ?thesis by (simp add: encode_atom_def ascii_def value_start_def)
next
  case (AInt n)
  show ?thesis
  proof (cases "n < 0")
    case True
    with AInt show ?thesis by (simp add: encode_atom_def str_int_def ascii_def value_start_def)
  next
    case False
    obtain h t where ht: "ascii (str_nat (nat n)) = h # t"
      using ascii_str_nat_nonempty [of "nat n"] by (cases "ascii (str_nat (nat n))") simp_all
    then have "is_digit h" using str_nat_digits [of h "nat n"] by simp
    with AInt False ht show ?thesis by (simp add: encode_atom_def str_int_def value_start_def)
  qed
next
  case (AStr s)
  then show ?thesis
    by (simp add: encode_atom_def py_encode_basestring_ascii_def value_start_def)
qed

lemma encode_head: "\<exists>c cs. encode v = c # cs \<and> value_start c"
proof (cases v)
  case (Atom a)
  then show ?thesis using encode_atom_head [of a] by simp
next
  case (PyList xs)
  then show ?thesis by (simp add: value_start_def)
next
  case (PyDict kvs)
  then show ?thesis by (simp add: value_start_def)
qed

lemma skip_ws_encode: "skip_ws (encode v @ r) = encode v @ r"
proof -
  obtain c cs where "encode v = c # cs" "value_start c" using encode_head by blast
  then show ?thesis using value_start_simps(1) by (simp add: skip_ws_def)
qed

lemma skip_ws_start: "\<not> is_ws c \<Longrightarrow> skip_ws (c # r) = c # r"
  by (simp add: skip_ws_def)

lemma skip_ws_space: "skip_ws (32 # r) = skip_ws r"
  by (simp add: skip_ws_def is_ws_def)

lemma scan_once_number:
  assumes "is_digit c \<or> (c = 45 \<and> cs \<noteq> [] \<and> is_digit (hd cs))"
  shows "scan_once (Suc n) (c # cs) = match_number (c # cs)"
proof -
  from assms have c: "c \<noteq> 34" "c \<noteq> 123" "c \<noteq> 91" "c \<noteq> 110" "c \<noteq> 116" "c \<noteq> 102"
    "c \<noteq> 78" "c \<noteq> 73"
    by (auto simp: is_digit_def)
  have others: "\<not> starts_with (c # cs) (ascii ''null'')"
    "\<not> starts_with (c # cs) (ascii ''true'')" "\<not> starts_with (c # cs) (ascii ''false'')"
    "\<not> starts_with (c # cs) (ascii ''NaN'')" "\<not> starts_with (c # cs) (ascii ''Infinity'')"
    using c by (simp_all add: starts_with_def ascii_def)
  have "\<not> starts_with (c # cs) (ascii ''-Infinity'')"
  proof (cases "c = 45")
    case False
    then show ?thesis by (simp add: starts_with_def ascii_def)
  next
    case True
    with assms obtain h t where "cs = h # t" "is_digit h"
      by (cases cs) (auto simp: is_digit_def)
    then show ?thesis by (auto simp: starts_with_def ascii_def is_digit_def)
  qed
  then show ?thesis using c others by simp
qed

lemma scan_once_atom:
  assumes "well_formed_atom a" "delimited r"
  shows "scan_once (Suc n) (encode_atom a @ r) = Inr (Atom a, r)"
proof (cases a)
  case ANone
  then show ?thesis by (simp add: encode_atom_def ascii_def starts_with_def)
next
  case (AStr s)
  with assms(1) have "unicode_text s" by (simp add: well_formed_atom_def)
  from scanstring_escaped [OF this, of r] show ?thesis
    using AStr by (simp add: encode_atom_def py_encode_basestring_ascii_def)
next
  case (AInt i)
  with assms(1) have len: "length (str_nat (nat \<bar>i\<bar>)) \<le> int_max_str_digits"
    by (simp add: well_formed_atom_def)
  consider "i < 0" | "i = 0" | "0 < i" by linarith
  then show ?thesis
  proof cases
    case 1
    let ?m = "nat (- i)"
    have m: "0 < ?m" "nat \<bar>i\<bar> = ?m" "- int ?m = i" using 1 by simp_all
    obtain h t where ht: "ascii (str_nat ?m) = h # t"
      using ascii_str_nat_nonempty [of ?m] by (cases "ascii (str_nat ?m)") simp_all
    then have "is_digit h" using str_nat_digits [of h ?m] by simp
    then have "scan_once (Suc n) (45 # ascii (str_nat ?m) @ r)
        = match_number (45 # ascii (str_nat ?m) @ r)"
      unfolding ht by (intro scan_once_number) simp
    also have "\<dots> = Inr (Atom (AInt (- int ?m)), r)"
      using len m by (intro match_number_positive(2) assms(2)) simp_all
    finally show ?thesis using AInt 1 m by (simp add: encode_atom_def str_int_def ascii_def)
  next
    case 2
    have "scan_once (Suc n) (48 # r) = match_number (48 # r)"
      by (intro scan_once_number) (simp add: is_digit_def)
    then show ?thesis
      using AInt 2 match_number_zero [OF assms(2)]
      by (simp add: encode_atom_def str_int_def ascii_str_nat_rec [of 0])
  next
    case 3
    let ?m = "nat i"
    have m: "0 < ?m" "nat \<bar>i\<bar> = ?m" "int ?m = i" using 3 by simp_all
    obtain h t where ht: "ascii (str_nat ?m) = h # t"
      using ascii_str_nat_nonempty [of ?m] by (cases "ascii (str_nat ?m)") simp_all
    then have "is_digit h" using str_nat_digits [of h ?m] by simp
    then have "scan_once (Suc n) (ascii (str_nat ?m) @ r) = match_number (ascii (str_nat ?m) @ r)"
      unfolding ht append_Cons by (intro scan_once_number) simp
    also have "\<dots> = Inr (Atom (AInt (int ?m)), r)"
      using len m by (intro match_number_positive(1) assms(2)) simp_all
    finally show ?thesis using AInt 3 m by (simp add: encode_atom_def str_int_def)
  qed
qed

lemma delimited_simps: "delimited (93 # r)" "delimited (125 # r)" "delimited (44 # r)"
  "delimited (10 # r)" "delimited []"
  by (simp_all add: delimited_def is_ws_def)

lemma join_Cons2: "ys \<noteq> [] \<Longrightarrow> join sep (x # ys) = x @ sep @ join sep ys"
  by (cases ys) simp_all

lemma json_array_elements:
  assumes "xs \<noteq> []" "\<And>x. x \<in> set xs \<Longrightarrow> decodes x"
    and "length (join (ascii '', '') (map encode xs)) < n"
  shows "JSONArray n (join (ascii '', '') (map encode xs) @ 93 # r) = Inr (xs, r)"
  using assms
proof (induction xs arbitrary: n)
  case Nil
  then show ?case by simp
next
  case (Cons x xs)
  from Cons.prems(3) obtain m where n: "n = Suc m" by (cases n) simp_all
  have dx: "decodes x" using Cons.prems(2) by simp
  show ?case
  proof (cases "xs = []")
    case True
    have "length (encode x) \<le> m" using Cons.prems(3) True n by simp
    then have "scan_once m (encode x @ 93 # r) = Inr (x, 93 # r)"
      using dx delimited_simps(1) unfolding decodes_def by blast
    then show ?thesis
      using True n by (simp add: bind_res_def skip_ws_start is_ws_def)
  next
    case False
    let ?rest = "join (ascii '', '') (map encode xs)"
    have j: "join (ascii '', '') (map encode (x # xs)) = encode x @ [44, 32] @ ?rest"
      using False by (simp add: join_Cons2 ascii_def)
    have len: "length (encode x) \<le> m" "length ?rest < m"
      using Cons.prems(3) n unfolding j by simp_all
    have first: "scan_once m (encode x @ 44 # 32 # ?rest @ 93 # r) = Inr (x, 44 # 32 # ?rest @ 93 # r)"
      using dx delimited_simps(3) len(1) unfolding decodes_def by blast
    obtain y ys where xs: "xs = y # ys" using False by (cases xs) simp_all
    have "?rest @ 93 # r = encode y @ (drop (length (encode y)) ?rest @ 93 # r)"
      unfolding xs by (cases ys) simp_all
    then have skip: "skip_ws (?rest @ 93 # r) = ?rest @ 93 # r"
      using skip_ws_encode [of y] by metis
    have others: "JSONArray m (?rest @ 93 # r) = Inr (xs, r)"
      using Cons.IH [OF False _ len(2)] Cons.prems(2) by simp
    show ?thesis
      unfolding j n using first others skip
      by (simp add: bind_res_def skip_ws_start skip_ws_space is_ws_def)
  qed
qed

lemma scan_once_list:
  assumes "\<And>x. x \<in> set xs \<Longrightarrow> decodes x"
  shows "decodes (PyList xs)"
  unfolding decodes_def
proof (intro allI impI)
  fix n r
  assume r: "delimited r" and len: "length (encode (PyList xs)) \<le> n"
  let ?body = "join (ascii '', '') (map encode xs)"
  from len obtain m where n: "n = Suc m" and m: "length ?body < m"
    by (cases n) simp_all
  show "scan_once n (encode (PyList xs) @ r) = Inr (PyList xs, r)"
  proof (cases "xs = []")
    case True
    then show ?thesis using n by (simp add: skip_ws_start is_ws_def)
  next
    case False
    then obtain y ys where xs: "xs = y # ys" by (cases xs) simp_all
    obtain c cs where c: "encode y = c # cs" "value_start c" using encode_head by blast
    have "?body @ 93 # r = c # (cs @ drop (length (encode y)) ?body @ 93 # r)"
      unfolding xs using c(1) by (cases ys) simp_all
    then obtain t where body: "?body @ 93 # r = c # t" by blast
    have skip: "skip_ws (c # t) = c # t"
      using value_start_simps(1) [OF c(2)] by (rule skip_ws_start)
    have "JSONArray m (c # t) = Inr (xs, r)"
      using json_array_elements [OF False assms m, of r] body by simp
    then show ?thesis
      using n body skip value_start_simps(2) [OF c(2)]
      by (simp add: bind_res_def)
  qed
qed

lemma encode_dict: "encode (PyDict kvs) = [123] @ join (ascii '', '') (map encode_item kvs) @ [125]"
  by (simp add: encode_item_def [abs_def] case_prod_unfold)

lemma encode_item_parts:
  "encode_item (k, v) @ r = 34 # concat (map escape_char k) @ 34 # 58 # 32 # encode v @ r"
  by (simp add: encode_item_def py_encode_basestring_ascii_def ascii_def)

lemma json_object_items:
  assumes "kvs \<noteq> []" "\<And>k v. (k, v) \<in> set kvs \<Longrightarrow> unicode_text k \<and> decodes v"
    and "length (join (ascii '', '') (map encode_item kvs)) < n"
  shows "JSONObject n (join (ascii '', '') (map encode_item kvs) @ 125 # r) = Inr (kvs, r)"
  using assms
proof (induction kvs arbitrary: n)
  case Nil
  then show ?case by simp
next
  case (Cons kv kvs)
  obtain k v where kv: "kv = (k, v)" by (cases kv)
  from Cons.prems(3) obtain m where n: "n = Suc m" by (cases n) simp_all
  have k: "unicode_text k" and dv: "decodes v" using Cons.prems(2) [of k v] kv by simp_all
  have le: "length (encode v) \<le> length (encode_item (k, v))"
    by (simp add: encode_item_def)
  have key: "scanstring (concat (map escape_char k) @ 34 # t) = Some (k, t)" for t
    by (rule scanstring_escaped [OF k])
  show ?case
  proof (cases "kvs = []")
    case True
    have "length (encode v) \<le> m" using Cons.prems(3) True n kv le by simp
    then have "scan_once m (encode v @ 125 # r) = Inr (v, 125 # r)"
      using dv delimited_simps(2) unfolding decodes_def by blast
    then show ?thesis
      using True n kv key
      by (simp add: encode_item_parts bind_res_def skip_ws_start skip_ws_space
          skip_ws_encode is_ws_def)
  next
    case False
    let ?rest = "join (ascii '', '') (map encode_item kvs)"
    have j: "join (ascii '', '') (map encode_item (kv # kvs)) @ 125 # r
        = encode_item (k, v) @ 44 # 32 # ?rest @ 125 # r"
      using False kv by (simp add: join_Cons2 ascii_def)
    have jl: "length (join (ascii '', '') (map encode_item (kv # kvs)))
        = length (encode_item (k, v)) + 2 + length ?rest"
      using False kv by (simp add: join_Cons2 ascii_def)
    have len: "length (encode v) \<le> m" "length ?rest < m"
      using Cons.prems(3) n le unfolding jl by simp_all
    have first: "scan_once m (encode v @ 44 # 32 # ?rest @ 125 # r)
        = Inr (v, 44 # 32 # ?rest @ 125 # r)"
      using dv delimited_simps(3) len(1) unfolding decodes_def by blast
    obtain kv2 kvs2 where kvs: "kvs = kv2 # kvs2" using False by (cases kvs) simp_all
    have "?rest @ 125 # r = 34 # tl (?rest @ 125 # r)"
      unfolding kvs
      by (cases kvs2) (simp_all add: encode_item_def py_encode_basestring_ascii_def)
    then obtain t where t: "?rest @ 125 # r = 34 # t" by blast
    have skip: "skip_ws (?rest @ 125 # r) = ?rest @ 125 # r"
      unfolding t by (simp add: skip_ws_def is_ws_def)
    have "\<And>k v. (k, v) \<in> set kvs \<Longrightarrow> unicode_text k \<and> decodes v"
      using Cons.prems(2) by (meson list.set_intros(2))
    then have others: "JSONObject m (?rest @ 125 # r) = Inr (kvs, r)"
      by (rule Cons.IH [OF False _ len(2)])
    show ?thesis
      unfolding j n using first others skip key kv
      by (simp add: encode_item_parts bind_res_def skip_ws_start skip_ws_space
          skip_ws_encode is_ws_def)
  qed
qed

lemma dict_set_fresh: "k \<notin> fst ` set d \<Longrightarrow> dict_set d k v = d @ [(k, v)]"
  by (induction d) auto

lemma dict_fold_distinct:
  "distinct (map fst (d @ kvs)) \<Longrightarrow> foldl (\<lambda>d (k, v). dict_set d k v) d kvs = d @ kvs"
proof (induction kvs arbitrary: d)
  case Nil
  then show ?case by simp
next
  case (Cons kv kvs)
  obtain k v where kv: "kv = (k, v)" by (cases kv)
  from Cons.prems have fresh: "k \<notin> fst ` set d" and rest: "distinct (map fst ((d @ [(k, v)]) @ kvs))"
    unfolding kv by auto
  show ?case
    unfolding kv using Cons.IH [OF rest] by (simp add: dict_set_fresh [OF fresh])
qed

lemma py_dict_distinct: "distinct (map fst kvs) \<Longrightarrow> py_dict kvs = PyDict kvs"
  using dict_fold_distinct [of "[]" kvs] by (simp add: py_dict_def)

lemma scan_once_dict:
  assumes "distinct (map fst kvs)" "\<And>k v. (k, v) \<in> set kvs \<Longrightarrow> unicode_text k \<and> decodes v"
  shows "decodes (PyDict kvs)"
  unfolding decodes_def
proof (intro allI impI)
  fix n r
  assume r: "delimited r" and len: "length (encode (PyDict kvs)) \<le> n"
  let ?body = "join (ascii '', '') (map encode_item kvs)"
  from len obtain m where n: "n = Suc m" and m: "length ?body < m"
    unfolding encode_dict by (cases n) simp_all
  show "scan_once n (encode (PyDict kvs) @ r) = Inr (PyDict kvs, r)"
  proof (cases "kvs = []")
    case True
    then show ?thesis using n by (simp add: skip_ws_start is_ws_def)
  next
    case False
    then obtain kv kvs2 where kvs: "kvs = kv # kvs2" by (cases kvs) simp_all
    have "?body @ 125 # r = 34 # tl (?body @ 125 # r)"
      unfolding kvs
      by (cases kvs2) (simp_all add: encode_item_def py_encode_basestring_ascii_def)
    then obtain t where body: "?body @ 125 # r = 34 # t" by blast
    have skip: "skip_ws (34 # t) = 34 # t"
      by (simp add: skip_ws_def is_ws_def)
    have "JSONObject m (34 # t) = Inr (kvs, r)"
      using json_object_items [OF False assms(2) m, of r] body by simp
    then show ?thesis
      unfolding encode_dict using n body skip py_dict_distinct [OF assms(1)]
      by (simp add: bind_res_def)
  qed
qed

lemma well_formed_decodes: "well_formed v \<Longrightarrow> decodes v"
proof (induction v)
  case (Atom a)
  show ?case
    unfolding decodes_def
  proof (intro allI impI)
    fix n r
    assume r: "delimited r" and len: "length (encode (Atom a)) \<le> n"
    obtain c cs where "encode_atom a = c # cs" using encode_atom_head by blast
    with len obtain m where "n = Suc m" by (cases n) simp_all
    then show "scan_once n (encode (Atom a) @ r) = Inr (Atom a, r)"
      using scan_once_atom [OF _ r, of a m] Atom by simp
  qed
next
  case (PyList xs)
  then show ?case by (intro scan_once_list) (simp add: list_all_iff)
next
  case (PyDict kvs)
  have "unicode_text k \<and> decodes v" if "(k, v) \<in> set kvs" for k v
  proof -
    from that PyDict.prems have "unicode_text k" "well_formed v"
      by (auto simp: list_all_iff)
    moreover from that have "v \<in> Basic_BNFs.snds (k, v)" by simp
    ultimately show ?thesis using PyDict.IH [OF that] by blast
  qed
  then show ?case using PyDict.prems by (intro scan_once_dict) simp_all
qed

lemma json_loads_line:
  assumes "well_formed v"
  shows "json_loads (encode v) = Inr v" and "json_loads (encode v @ [10]) = Inr v"
proof -
  have d: "decodes v" by (rule well_formed_decodes [OF assms])
  have "scan_once (2 * length (encode v) + 2) (encode v @ []) = Inr (v, [])"
    using d delimited_simps(5) unfolding decodes_def by (simp del: append_Nil2)
  then show "json_loads (encode v) = Inr v"
    using skip_ws_encode [of v "[]"] by (simp add: json_loads_def bind_res_def skip_ws_def)
  have "scan_once (2 * length (encode v @ [10]) + 2) (encode v @ [10]) = Inr (v, [10])"
    using d delimited_simps(4) unfolding decodes_def by simp
  then show "json_loads (encode v @ [10]) = Inr v"
    using skip_ws_encode [of v "[10]"]
    by (simp add: json_loads_def bind_res_def skip_ws_def is_ws_def)
qed

lemma text_or_none_repr: "text_or_none a \<Longrightarrow> int_repr_ok a"
  by (cases a) (simp_all add: text_or_none_def int_repr_ok_def)

lemma encodable_formatted: "encodable_row row \<Longrightarrow> encodable (formatted_data row)"
  by (simp add: encodable_row_def formatted_data_def create_rerank_ft_data_def
      list_all_iff text_or_none_repr)

lemma write_rows_content:
  "list_all (\<lambda>(idx, row). encodable_row row) df \<Longrightarrow>
   write_rows df content = (None, content @ jsonl_text df)"
proof (induction df arbitrary: content)
  case Nil
  then show ?case by (simp add: jsonl_text_def)
next
  case (Cons ir df)
  obtain idx row where ir: "ir = (idx, row)" by (cases ir)
  from Cons.prems have "encodable (formatted_data row)" and rest: "list_all (\<lambda>(idx, row). encodable_row row) df"
    unfolding ir by (simp_all add: encodable_formatted)
  then show ?case
    unfolding ir using Cons.IH [OF rest] by (simp add: json_dumps_def jsonl_text_def)
qed

lemma printableI: "32 \<le> c \<Longrightarrow> c \<le> 126 \<Longrightarrow> printable c"
  by (simp add: printable_def)

lemma printable_chars:
  "printable 34" "printable 92" "printable 110" "printable 114" "printable 116"
  "printable 102" "printable 98" "printable 117" "printable 91" "printable 93"
  "printable 123" "printable 125" "printable 45" "printable 44" "printable 32"
  "printable 58" "printable 108"
  by (simp_all add: printable_def)

lemma hex_digit_printable: "d < 16 \<Longrightarrow> printable (hex_digit d)"
  by (simp add: hex_digit_def printable_def)

lemma u_escape_printable: "list_all printable (u_escape n)"
  by (simp add: u_escape_def hex4_def hex_digit_printable printable_chars)

lemma escape_char_printable: "list_all printable (escape_char c)"
  by (auto simp: escape_char_def u_escape_printable printable_chars intro: printableI)

lemma basestring_printable: "list_all printable (py_encode_basestring_ascii s)"
proof -
  have "list_all printable (concat (map escape_char s))"
    by (induction s) (simp_all add: escape_char_printable)
  then show ?thesis by (simp add: py_encode_basestring_ascii_def printable_chars)
qed

lemma digit_printable: "is_digit c \<Longrightarrow> printable c"
  by (simp add: is_digit_def printable_def)

lemma str_nat_printable: "list_all printable (ascii (str_nat m))"
  using str_nat_digits [of _ m] by (auto simp: list_all_iff intro: digit_printable)

lemma encode_atom_printable: "list_all printable (encode_atom a)"
proof (cases a)
  case ANone
  then show ?thesis by (simp add: encode_atom_def ascii_def printable_chars)
next
  case (AInt n)
  have "ascii (str_int n) = (if n < 0 then 45 # ascii (str_nat (nat (- n))) else ascii (str_nat (nat n)))"
    by (simp add: str_int_def ascii_def)
  then show ?thesis
    using AInt str_nat_printable by (simp add: encode_atom_def printable_chars)
next
  case (AStr s)
  then show ?thesis by (simp add: encode_atom_def basestring_printable)
qed

lemma join_printable:
  "list_all printable sep \<Longrightarrow> list_all (list_all printable) xs \<Longrightarrow> list_all printable (join sep xs)"
  by (induction sep xs rule: join.induct) simp_all

lemma sep_printable: "list_all printable (ascii '', '')" "list_all printable (ascii '': '')"
  by (simp_all add: ascii_def printable_chars)

lemma encode_printable: "list_all printable (encode v)"
proof (induction v)
  case (Atom a)
  then show ?case by (simp add: encode_atom_printable)
next
  case (PyList xs)
  then have "list_all (list_all printable) (map encode xs)"
    by (simp add: list_all_iff)
  then have "list_all printable (join (ascii '', '') (map encode xs))"
    by (rule join_printable [OF sep_printable(1)])
  then show ?case by (simp add: printable_chars)
next
  case (PyDict kvs)
  have "list_all printable (encode_item kv)" if "kv \<in> set kvs" for kv
  proof -
    have "snd kv \<in> Basic_BNFs.snds kv" by (cases kv) simp
    from PyDict.IH [OF that this] show ?thesis
      by (simp add: encode_item_def basestring_printable sep_printable)
  qed
  then have "list_all (list_all printable) (map encode_item kvs)"
    by (simp add: list_all_iff)
  then have "list_all printable (join (ascii '', '') (map encode_item kvs))"
    by (rule join_printable [OF sep_printable(1)])
  then show ?case unfolding encode_dict by (simp add: printable_chars)
qed

lemma printable_no_newline: "list_all printable l \<Longrightarrow> 10 \<notin> set l \<and> 13 \<notin> set l"
  by (auto simp: list_all_iff printable_def)

lemma universal_newlines_id: "13 \<notin> set s \<Longrightarrow> universal_newlines s = s"
  by (induction s rule: universal_newlines.induct) auto

lemma split_keepends_line:
  "10 \<notin> set l \<Longrightarrow> split_keepends cur (l @ 10 # rest) = (cur @ l @ [10]) # split_keepends [] rest"
  by (induction l arbitrary: cur) simp_all

lemma split_keepends_lines:
  "\<forall>l\<in>set ls. 10 \<notin> set l \<Longrightarrow>
   split_keepends [] (concat (map (\<lambda>l. l @ [10]) ls)) = map (\<lambda>l. l @ [10]) ls"
proof (induction ls)
  case Nil
  then show ?case by simp
next
  case (Cons l ls)
  then show ?case using split_keepends_line [of l "[]"] by simp
qed

lemma file_lines_jsonl:
  "file_lines (jsonl_text df) = map (\<lambda>(idx, row). encode (formatted_data row) @ [10]) df"
proof -
  let ?ls = "map (\<lambda>(idx, row). encode (formatted_data row)) df"
  have content_eq: "jsonl_text df = concat (map (\<lambda>l. l @ [10]) ?ls)"
    by (simp add: jsonl_text_def comp_def case_prod_unfold)
  have p: "\<forall>l\<in>set ?ls. list_all printable l"
    by (auto simp: encode_printable)
  then have no10: "\<forall>l\<in>set ?ls. 10 \<notin> set l" and no13: "\<forall>l\<in>set ?ls. 13 \<notin> set l"
    using printable_no_newline by blast+
  have "13 \<notin> set (jsonl_text df)"
    unfolding content_eq using no13 by auto
  then have "file_lines (jsonl_text df) = split_keepends [] (jsonl_text df)"
    by (simp add: file_lines_def universal_newlines_id)
  also have "\<dots> = map (\<lambda>l. l @ [10]) ?ls"
    unfolding content_eq by (rule split_keepends_lines [OF no10])
  finally show ?thesis by (simp add: comp_def case_prod_unfold)
qed

lemma well_formed_atom_repr: "well_formed_atom a \<Longrightarrow> int_repr_ok a"
  by (cases a) (simp_all add: well_formed_atom_def int_repr_ok_def)

lemma well_formed_row_encodable: "well_formed_row row \<Longrightarrow> encodable_row row"
  by (auto simp: well_formed_row_def encodable_row_def list_all_iff well_formed_atom_repr)

lemma well_formed_formatted: "well_formed_row row \<Longrightarrow> well_formed (formatted_data row)"
  by (simp add: well_formed_row_def formatted_data_def create_rerank_ft_data_def
      list_all_iff ascii_def unicode_text_def unicode_scalar_def)

lemma create_fresh:
  assumes "fs (file_name @ ascii ''.jsonl'') = None"
    and "list_all (\<lambda>(idx, row). encodable_row row) df"
  shows "create_jsonl_from_list file_name df fs
     = (None, fs(file_name @ ascii ''.jsonl'' \<mapsto> File (jsonl_text df)))"
  using assms(1) write_rows_content [OF assms(2), of "[]"]
  by (simp add: create_jsonl_from_list_def isfile_def)

lemma jsonlines_read_line:
  assumes "well_formed_row row"
  shows "jsonlines_read (encode (formatted_data row) @ [10]) = Inr (formatted_data row)"
proof -
  have "json_loads (encode (formatted_data row) @ [10]) = Inr (formatted_data row)"
    by (rule json_loads_line(2) [OF well_formed_formatted [OF assms]])
  moreover have "encode (formatted_data row) @ [10] = 123 # tl (encode (formatted_data row) @ [10])"
    by (simp add: formatted_data_def create_rerank_ft_data_def)
  ultimately show ?thesis
    by (simp add: jsonlines_read_def formatted_data_def [of row] create_rerank_ft_data_def)
qed

text \<open>
  C4 (serializer format and round trip). When nothing exists at the destination path and the
  rows are well formed (the query a text or \<^verbatim>\<open>None\<close>, the passages texts, \<^verbatim>\<open>None\<close> or integers,
  every text Unicode text), the serializer raises nothing and leaves a file with exactly one
  line per row, in row order; each line is the JSON text of the row's dictionary with the keys
  \<^verbatim>\<open>query\<close>, \<^verbatim>\<open>relevant_passages\<close> and \<^verbatim>\<open>hard_negatives\<close> (the label is not written), followed by a
  newline; and reading the file back line by line gives exactly those dictionaries again.
\<close>

theorem serializer_round_trip:
  assumes fresh: "fs (file_name @ ascii ''.jsonl'') = None"
    and wf: "list_all (\<lambda>(idx, row). well_formed_row row) df"
  shows "\<exists>content.
      create_jsonl_from_list file_name df fs
        = (None, fs(file_name @ ascii ''.jsonl'' \<mapsto> File content))
    \<and> file_lines content = map (\<lambda>(idx, row). encode (formatted_data row) @ [10]) df
    \<and> map (\<lambda>(idx, row). json_dumps (formatted_data row)) df
        = map (\<lambda>(idx, row). Inr (encode (formatted_data row))) df
    \<and> map (\<lambda>(idx, row). formatted_data row) df
        = map (\<lambda>(idx, row). PyDict [(ascii ''query'', Atom (query row)),
              (ascii ''relevant_passages'', PyList (map Atom (relevant_passages row))),
              (ascii ''hard_negatives'', PyList (map Atom (hard_negatives row)))]) df
    \<and> read_jsonl content = map (\<lambda>(idx, row). Inr (formatted_data row)) df"
proof -
  have enc: "list_all (\<lambda>(idx, row). encodable_row row) df"
    using wf by (auto simp: list_all_iff well_formed_row_encodable)
  have created: "create_jsonl_from_list file_name df fs
      = (None, fs(file_name @ ascii ''.jsonl'' \<mapsto> File (jsonl_text df)))"
    using fresh enc by (rule create_fresh [of fs file_name df])
  have lines: "file_lines (jsonl_text df)
      = map (\<lambda>(idx, row). encode (formatted_data row) @ [10]) df"
    by (rule file_lines_jsonl)
  have dumps: "map (\<lambda>(idx, row). json_dumps (formatted_data row)) df
        = map (\<lambda>(idx, row). Inr (encode (formatted_data row))) df"
    using enc by (auto simp: list_all_iff json_dumps_def encodable_formatted)
  have keys: "map (\<lambda>(idx, row). formatted_data row) df
        = map (\<lambda>(idx, row). PyDict [(ascii ''query'', Atom (query row)),
              (ascii ''relevant_passages'', PyList (map Atom (relevant_passages row))),
              (ascii ''hard_negatives'', PyList (map Atom (hard_negatives row)))]) df"
    by (simp add: formatted_data_def create_rerank_ft_data_def)
  have reread: "read_jsonl (jsonl_text df) = map (\<lambda>(idx, row). Inr (formatted_data row)) df"
    unfolding read_jsonl_def lines using wf
    by (auto simp: list_all_iff jsonlines_read_line)
  show ?thesis using created lines dumps keys reread by blast
qed

lemma sample_rows_well_formed: "well_formed_row newline_row" "well_formed_row (sample_row 3)"
  by (simp_all add: well_formed_row_def well_formed_atom_def text_or_none_def newline_row_def
      sample_row_def
      unicode_text_def unicode_scalar_def ascii_def str_nat_digit int_max_str_digits_def)

theorem serializer_round_trip_witness:
  "\<exists>content.
      create_jsonl_from_list (ascii ''casehold_train'') (DataFrame [newline_row, sample_row 3])
        Map.empty = (None, [ascii ''casehold_train.jsonl'' \<mapsto> File content])
    \<and> read_jsonl content = [Inr (formatted_data newline_row), Inr (formatted_data (sample_row 3))]"
proof -
  have wf: "list_all (\<lambda>(idx, row). well_formed_row row) (DataFrame [newline_row, sample_row 3])"
    by (simp add: DataFrame_def sample_rows_well_formed)
  have fresh: "Map.empty (ascii ''casehold_train'' @ ascii ''.jsonl'') = (None :: fsnode option)"
    by simp
  from serializer_round_trip [OF fresh wf] obtain content where
    c: "create_jsonl_from_list (ascii ''casehold_train'') (DataFrame [newline_row, sample_row 3])
          Map.empty = (None, [ascii ''casehold_train'' @ ascii ''.jsonl'' \<mapsto> File content])"
      "read_jsonl content
         = map (\<lambda>(idx, row). Inr (formatted_data row)) (DataFrame [newline_row, sample_row 3])"
    by blast
  have path: "ascii ''casehold_train'' @ ascii ''.jsonl'' = ascii ''casehold_train.jsonl''"
    by (simp add: ascii_def)
  show ?thesis
    using c unfolding path by (intro exI [of _ content]) (simp add: DataFrame_def)
qed

text \<open>
  C5 (skip if the file exists). When the destination is a regular file, the serializer does
  nothing, whatever table it is given: no exception and the same file system. In particular a
  second run on the same name, with any table, changes nothing that a first run left, so the
  file still holds what the first run wrote.
\<close>

theorem skip_if_exists:
  "(isfile fs (file_name @ ascii ''.jsonl'')
      \<longrightarrow> create_jsonl_from_list file_name df fs = (None, fs))
   \<and> (fs0 (file_name @ ascii ''.jsonl'') \<noteq> Some Dir
      \<longrightarrow> create_jsonl_from_list file_name df2 (snd (create_jsonl_from_list file_name df1 fs0))
            = (None, snd (create_jsonl_from_list file_name df1 fs0)))"
proof (intro conjI impI)
  show skip: "create_jsonl_from_list file_name df fs = (None, fs)"
    if "isfile fs (file_name @ ascii ''.jsonl'')" for df fs
    using that by (simp add: create_jsonl_from_list_def)
  assume nodir: "fs0 (file_name @ ascii ''.jsonl'') \<noteq> Some Dir"
  have "isfile (snd (create_jsonl_from_list file_name df1 fs0)) (file_name @ ascii ''.jsonl'')"
    using nodir
    by (auto simp: create_jsonl_from_list_def isfile_def Let_def
        split: option.splits fsnode.splits prod.splits)
  then show "create_jsonl_from_list file_name df2 (snd (create_jsonl_from_list file_name df1 fs0))
      = (None, snd (create_jsonl_from_list file_name df1 fs0))"
    by (rule skip)
qed

theorem skip_if_exists_witness:
  "create_jsonl_from_list (ascii ''casehold_train'') (DataFrame [newline_row])
       [ascii ''casehold_train.jsonl'' \<mapsto> File (ascii ''old'')]
     = (None, [ascii ''casehold_train.jsonl'' \<mapsto> File (ascii ''old'')])
   \<and> create_jsonl_from_list (ascii ''casehold_train'') (DataFrame [newline_row])
       (snd (create_jsonl_from_list (ascii ''casehold_train'') (DataFrame [sample_row 3]) Map.empty))
     = (None, [ascii ''casehold_train.jsonl'' \<mapsto>
                 File (encode (formatted_data (sample_row 3)) @ [10])])"
proof -
  let ?fs = "[ascii ''casehold_train.jsonl'' \<mapsto> File (ascii ''old'')]"
  note t = skip_if_exists [of ?fs "ascii ''casehold_train''" "DataFrame [newline_row]"
      Map.empty "DataFrame [newline_row]" "DataFrame [sample_row 3]"]
  have h1: "isfile ?fs (ascii ''casehold_train'' @ ascii ''.jsonl'')"
    by (simp add: isfile_def ascii_def)
  have h2: "Map.empty (ascii ''casehold_train'' @ ascii ''.jsonl'') \<noteq> Some Dir"
    by simp
  have first: "create_jsonl_from_list (ascii ''casehold_train'') (DataFrame [sample_row 3]) Map.empty
      = (None, [ascii ''casehold_train.jsonl'' \<mapsto>
                  File (encode (formatted_data (sample_row 3)) @ [10])])"
    using create_fresh [of Map.empty "ascii ''casehold_train''" "DataFrame [sample_row 3]"]
      well_formed_row_encodable [OF sample_rows_well_formed(2)]
    by (simp add: DataFrame_def jsonl_text_def ascii_def)
  show ?thesis
    using conjunct1 [OF t, THEN mp, OF h1] conjunct2 [OF t, THEN mp, OF h2]
    by (simp add: first)
qed

lemma newline_count:
  "length (filter (\<lambda>c. c = 10) (jsonl_text df)) = length df"
proof (induction df)
  case Nil
  then show ?case by (simp add: jsonl_text_def)
next
  case (Cons ir df)
  obtain idx row where ir: "ir = (idx, row)" by (cases ir)
  have "10 \<notin> set (encode (formatted_data row))"
    using printable_no_newline [OF encode_printable] by blast
  then have "filter (\<lambda>c. c = 10) (encode (formatted_data row)) = []"
    by (auto simp: filter_empty_conv)
  then show ?case using Cons unfolding ir by (simp add: jsonl_text_def)
qed

text \<open>
  C10 (one line per record). When nothing exists at the destination path and
  \<^verbatim>\<open>json.dumps\<close> can write every row (the query a text or \<^verbatim>\<open>None\<close>, integers within the digit
  limit), the file has exactly as many lines, and exactly as many newline characters, as the
  table has rows, whatever the texts contain: the JSON text of a row holds neither a newline
  nor a carriage return, since both are escaped.
\<close>

theorem one_line_per_record:
  assumes fresh: "fs (file_name @ ascii ''.jsonl'') = None"
    and enc: "list_all (\<lambda>(idx, row). encodable_row row) df"
  shows "\<exists>content.
      create_jsonl_from_list file_name df fs
        = (None, fs(file_name @ ascii ''.jsonl'' \<mapsto> File content))
    \<and> length (file_lines content) = length df
    \<and> length (filter (\<lambda>c. c = 10) content) = length df
    \<and> file_lines content = map (\<lambda>(idx, row). encode (formatted_data row) @ [10]) df
    \<and> list_all (\<lambda>(idx, row). 10 \<notin> set (encode (formatted_data row))
                                \<and> 13 \<notin> set (encode (formatted_data row))) df"
proof -
  have created: "create_jsonl_from_list file_name df fs
      = (None, fs(file_name @ ascii ''.jsonl'' \<mapsto> File (jsonl_text df)))"
    using fresh enc by (rule create_fresh [of fs file_name df])
  have lines: "file_lines (jsonl_text df)
      = map (\<lambda>(idx, row). encode (formatted_data row) @ [10]) df"
    by (rule file_lines_jsonl)
  then have len: "length (file_lines (jsonl_text df)) = length df" by simp
  have escaped: "list_all (\<lambda>(idx, row). 10 \<notin> set (encode (formatted_data row))
                                \<and> 13 \<notin> set (encode (formatted_data row))) df"
    using printable_no_newline [OF encode_printable] by (auto simp: list_all_iff)
  show ?thesis using created lines len newline_count [of df] escaped by blast
qed

theorem one_line_per_record_witness:
  "\<exists>content.
      create_jsonl_from_list (ascii ''casehold_valid'') (DataFrame [newline_row, sample_row 3])
        Map.empty = (None, [ascii ''casehold_valid.jsonl'' \<mapsto> File content])
    \<and> length (file_lines content) = 2
    \<and> length (filter (\<lambda>c. c = 10) content) = 2"
proof -
  have enc: "list_all (\<lambda>(idx, row). encodable_row row) (DataFrame [newline_row, sample_row 3])"
    by (simp add: DataFrame_def sample_rows_well_formed well_formed_row_encodable)
  have fresh: "Map.empty (ascii ''casehold_valid'' @ ascii ''.jsonl'') = (None :: fsnode option)"
    by simp
  from one_line_per_record [OF fresh enc] obtain content where
    c: "create_jsonl_from_list (ascii ''casehold_valid'') (DataFrame [newline_row, sample_row 3])
          Map.empty = (None, [ascii ''casehold_valid'' @ ascii ''.jsonl'' \<mapsto> File content])"
      "length (file_lines content) = length (DataFrame [newline_row, sample_row 3])"
      "length (filter (\<lambda>c. c = 10) content) = length (DataFrame [newline_row, sample_row 3])"
    by blast
  have path: "ascii ''casehold_valid'' @ ascii ''.jsonl'' = ascii ''casehold_valid.jsonl''"
    by (simp add: ascii_def)
  show ?thesis
    using c unfolding path by (intro exI [of _ content]) (simp add: DataFrame_def)
qed

subsection \<open>The decoder returns\<close>

text \<open>
  Every value read consumes input, so the bound on nested calls that \<open>json_loads\<close> starts
  from is never used up: \<open>RecursionError\<close> is not a result of \<open>json_loads\<close>.
\<close>

lemma cons_char_Some: "cons_char c x = Some (t, r) \<Longrightarrow> \<exists>t'. x = Some (t', r)"
  by (cases x) (auto simp: cons_char_def)

lemma scanstring_shorter: "scanstring s = Some (t, r) \<Longrightarrow> length r < length s"
proof (induction s arbitrary: t rule: scanstring.induct)
  case 1
  then show ?case by (simp add: scanstring.simps)
next
  case (2 c cs)
  consider "c = 34" | "c \<noteq> 34" "c < 32" | "c \<noteq> 34" "\<not> c < 32" "c = 92" | "c \<noteq> 34" "\<not> c < 32" "c \<noteq> 92"
    by blast
  then show ?case
  proof cases
    case 1
    with "2.prems" show ?thesis by (simp add: scanstring.simps)
  next
    case 2
    with "2.prems" show ?thesis by (simp add: scanstring.simps)
  next
    case 3
    show ?thesis
    proof (cases cs)
      case Nil
      with 3 "2.prems" show ?thesis by (simp add: scanstring.simps)
    next
      case (Cons e cs1)
      show ?thesis
      proof (cases "e = 117")
        case True
        with 3 Cons "2.prems" obtain u cs2 where
          u: "unicode_escape cs1 = Some (u, cs2)" and c: "cons_char u (scanstring cs2) = Some (t, r)"
          by (auto simp: scanstring.simps split: option.splits)
        from cons_char_Some [OF c] obtain t' where "scanstring cs2 = Some (t', r)" by blast
        from "2.IH"(1) [OF 3(1,2,3) Cons True u refl this] unicode_escape_length [OF u]
        show ?thesis using Cons by simp
      next
        case False
        with 3 Cons "2.prems" obtain x where
          x: "backslash e = Some x" and c: "cons_char x (scanstring cs1) = Some (t, r)"
          by (auto simp: scanstring.simps split: option.splits)
        from cons_char_Some [OF c] obtain t' where "scanstring cs1 = Some (t', r)" by blast
        from "2.IH"(2) [OF 3(1,2,3) Cons False x this]
        show ?thesis using Cons by simp
      qed
    qed
  next
    case 4
    with "2.prems" have c: "cons_char c (scanstring cs) = Some (t, r)"
      by (simp add: scanstring.simps)
    from cons_char_Some [OF c] obtain t' where "scanstring cs = Some (t', r)" by blast
    from "2.IH"(3) [OF 4 this] show ?thesis by simp
  qed
qed

lemma skip_ws_length: "length (skip_ws s) \<le> length s"
  by (simp add: skip_ws_def length_dropWhile_le)

lemma finish_number_rest: "finish_number neg ds rest = Inr (v, r) \<Longrightarrow> r = rest"
  by (auto simp: finish_number_def split: if_splits)

lemma match_number_shorter: "match_number s = Inr (v, r) \<Longrightarrow> length r < length s"
proof -
  assume a: "match_number s = Inr (v, r)"
  define s1 where "s1 = (if s \<noteq> [] \<and> hd s = 45 then tl s else s)"
  have le: "length s1 \<le> length s" by (simp add: s1_def)
  from a obtain c cs where s1: "s1 = c # cs"
    by (cases s1) (auto simp: match_number_def s1_def Let_def)
  from a s1 have "(49 \<le> c \<and> c \<le> 57 \<and> r = dropWhile is_digit s1) \<or> (c = 48 \<and> r = cs)"
    by (auto simp: match_number_def s1_def [symmetric] Let_def split: if_splits
        dest: finish_number_rest)
  then have "length r < length s1"
  proof
    assume "49 \<le> c \<and> c \<le> 57 \<and> r = dropWhile is_digit s1"
    then have "r = dropWhile is_digit cs" using s1 by (simp add: is_digit_def)
    then show ?thesis using s1 length_dropWhile_le [of is_digit cs] by simp
  next
    assume "c = 48 \<and> r = cs"
    then show ?thesis using s1 by simp
  qed
  then show ?thesis using le by simp
qed


lemma bind_res_Inr: "bind_res m f = Inr y \<Longrightarrow> \<exists>x. m = Inr x \<and> f x = Inr y"
  by (cases m) (simp_all add: bind_res_def)

lemma list_case_Inr:
  "(case xs of [] \<Rightarrow> Inl e | d # r \<Rightarrow> f d r) = Inr y \<Longrightarrow> \<exists>d r. xs = d # r \<and> f d r = Inr y"
  by (cases xs) simp_all

lemma skip_ws_Cons: "skip_ws s = d # r \<Longrightarrow> length r < length s"
  using skip_ws_length [of s] by simp

lemma scan_consumes:
  "(scan_once n s = Inr (v, r) \<longrightarrow> length r < length s)
   \<and> (JSONArray n s = Inr (vs, r) \<longrightarrow> length r < length s)
   \<and> (JSONObject n s = Inr (ps, r) \<longrightarrow> length r < length s)"
proof (induction n arbitrary: s v vs ps r)
  case 0
  then show ?case by simp
next
  case (Suc n)
  have ih1: "\<And>s v r. scan_once n s = Inr (v, r) \<Longrightarrow> length r < length s"
    and ih2: "\<And>s vs r. JSONArray n s = Inr (vs, r) \<Longrightarrow> length r < length s"
    and ih3: "\<And>s ps r. JSONObject n s = Inr (ps, r) \<Longrightarrow> length r < length s"
    using Suc.IH by blast+
  have one: "length r < length s" if a: "scan_once (Suc n) s = Inr (v, r)"
  proof (cases s)
    case Nil
    with a show ?thesis by simp
  next
    case (Cons c cs)
    consider "c = 34" | "c = 123" | "c = 91" | "c \<noteq> 34" "c \<noteq> 123" "c \<noteq> 91" by blast
    then show ?thesis
    proof cases
      case 1
      with a Cons obtain t where "scanstring cs = Some (t, r)"
        by (auto split: option.splits)
      from scanstring_shorter [OF this] show ?thesis using Cons by simp
    next
      case 2
      show ?thesis
      proof (cases "skip_ws cs \<noteq> [] \<and> hd (skip_ws cs) = 125")
        case True
        with a Cons 2 have "r = tl (skip_ws cs)" by simp
        then show ?thesis using True skip_ws_length [of cs] Cons by (cases "skip_ws cs") simp_all
      next
        case False
        with a Cons 2 have "bind_res (JSONObject n (skip_ws cs)) (\<lambda>(pairs, rest). Inr (py_dict pairs, rest))
            = Inr (v, r)"
          by (simp add: Let_def)
        from bind_res_Inr [OF this] obtain pairs where "JSONObject n (skip_ws cs) = Inr (pairs, r)"
          by auto
        from ih3 [OF this] show ?thesis using skip_ws_length [of cs] Cons by simp
      qed
    next
      case 3
      show ?thesis
      proof (cases "skip_ws cs \<noteq> [] \<and> hd (skip_ws cs) = 93")
        case True
        with a Cons 3 have "r = tl (skip_ws cs)" by simp
        then show ?thesis using True skip_ws_length [of cs] Cons by (cases "skip_ws cs") simp_all
      next
        case False
        with a Cons 3 have "bind_res (JSONArray n (skip_ws cs)) (\<lambda>(values, rest). Inr (PyList values, rest))
            = Inr (v, r)"
          by (simp add: Let_def)
        from bind_res_Inr [OF this] obtain xs where "JSONArray n (skip_ws cs) = Inr (xs, r)"
          by auto
        from ih2 [OF this] show ?thesis using skip_ws_length [of cs] Cons by simp
      qed
    next
      case 4
      with a Cons have "(starts_with (c # cs) (ascii ''null'') \<and> r = drop 3 cs)
          \<or> match_number (c # cs) = Inr (v, r)"
        by (auto split: if_splits)
      then show ?thesis
      proof
        assume "starts_with (c # cs) (ascii ''null'') \<and> r = drop 3 cs"
        then show ?thesis using Cons by simp
      next
        assume "match_number (c # cs) = Inr (v, r)"
        from match_number_shorter [OF this] show ?thesis using Cons by simp
      qed
    qed
  qed
  have two: "length r < length s" if a: "JSONArray (Suc n) s = Inr (vs, r)"
  proof -
    from a have "bind_res (scan_once n s) (\<lambda>(val, rest).
       case skip_ws rest of
         [] \<Rightarrow> Inl JSONDecodeError
       | d # rest1 \<Rightarrow>
           (if d = 93 then Inr ([val], rest1)
            else if d = 44 then
              bind_res (JSONArray n (skip_ws rest1)) (\<lambda>(values, rest2). Inr (val # values, rest2))
            else Inl JSONDecodeError)) = Inr (vs, r)"
      by simp
    from bind_res_Inr [OF this] obtain val rest where
      first: "scan_once n s = Inr (val, rest)"
      and "(case skip_ws rest of
         [] \<Rightarrow> Inl JSONDecodeError
       | d # rest1 \<Rightarrow>
           (if d = 93 then Inr ([val], rest1)
            else if d = 44 then
              bind_res (JSONArray n (skip_ws rest1)) (\<lambda>(values, rest2). Inr (val # values, rest2))
            else Inl JSONDecodeError)) = Inr (vs, r)"
      by auto
    from list_case_Inr [OF this(2)] obtain d rest1 where sk: "skip_ws rest = d # rest1"
      and after: "(if d = 93 then Inr ([val], rest1)
            else if d = 44 then
              bind_res (JSONArray n (skip_ws rest1)) (\<lambda>(values, rest2). Inr (val # values, rest2))
            else Inl JSONDecodeError) = Inr (vs, r)"
      by blast
    have l1: "length rest1 < length s"
      using ih1 [OF first] skip_ws_Cons [OF sk] by simp
    show ?thesis
    proof (cases "d = 93")
      case True
      with after l1 show ?thesis by simp
    next
      case False
      with after have d: "d = 44" and
        "bind_res (JSONArray n (skip_ws rest1)) (\<lambda>(values, rest2). Inr (val # values, rest2))
           = Inr (vs, r)"
        by (auto split: if_splits)
      from bind_res_Inr [OF this(2)] obtain elems where
        "JSONArray n (skip_ws rest1) = Inr (elems, r)" by auto
      from ih2 [OF this] show ?thesis using skip_ws_length [of rest1] l1 by simp
    qed
  qed
  have three: "length r < length s" if a: "JSONObject (Suc n) s = Inr (ps, r)"
  proof -
    from a obtain q s1 key rest colon rest1 where
      s: "s = q # s1" and key: "scanstring s1 = Some (key, rest)"
      and sk: "skip_ws rest = colon # rest1"
      and body: "bind_res (scan_once n (skip_ws rest1)) (\<lambda>(val, rest2).
                       case skip_ws rest2 of
                         [] \<Rightarrow> Inl JSONDecodeError
                       | d # rest3 \<Rightarrow>
                           (if d = 125 then Inr ([(key, val)], rest3)
                            else if d = 44 then
                              bind_res (JSONObject n (skip_ws rest3))
                                (\<lambda>(pairs, rest4). Inr ((key, val) # pairs, rest4))
                            else Inl JSONDecodeError)) = Inr (ps, r)"
      by (auto split: list.splits if_splits option.splits)
    from bind_res_Inr [OF body] obtain val rest2 where
      first: "scan_once n (skip_ws rest1) = Inr (val, rest2)"
      and "(case skip_ws rest2 of
                         [] \<Rightarrow> Inl JSONDecodeError
                       | d # rest3 \<Rightarrow>
                           (if d = 125 then Inr ([(key, val)], rest3)
                            else if d = 44 then
                              bind_res (JSONObject n (skip_ws rest3))
                                (\<lambda>(pairs, rest4). Inr ((key, val) # pairs, rest4))
                            else Inl JSONDecodeError)) = Inr (ps, r)"
      by auto
    from list_case_Inr [OF this(2)] obtain d rest3 where sk2: "skip_ws rest2 = d # rest3"
      and after: "(if d = 125 then Inr ([(key, val)], rest3)
                            else if d = 44 then
                              bind_res (JSONObject n (skip_ws rest3))
                                (\<lambda>(pairs, rest4). Inr ((key, val) # pairs, rest4))
                            else Inl JSONDecodeError) = Inr (ps, r)"
      by blast
    have l0: "length rest1 < length s"
      using scanstring_shorter [OF key] skip_ws_Cons [OF sk] s by simp
    have l1: "length rest3 < length s"
      using ih1 [OF first] skip_ws_Cons [OF sk2] skip_ws_length [of rest1] l0 by simp
    show ?thesis
    proof (cases "d = 125")
      case True
      with after l1 show ?thesis by simp
    next
      case False
      with after have d: "d = 44" and
        "bind_res (JSONObject n (skip_ws rest3)) (\<lambda>(pairs, rest4). Inr ((key, val) # pairs, rest4))
           = Inr (ps, r)"
        by (auto split: if_splits)
      from bind_res_Inr [OF this(2)] obtain pairs where
        "JSONObject n (skip_ws rest3) = Inr (pairs, r)" by auto
      from ih3 [OF this] show ?thesis using skip_ws_length [of rest3] l1 by simp
    qed
  qed
  show ?case using one two three by blast
qed


lemma bind_res_not:
  "m \<noteq> Inl e \<Longrightarrow> (\<And>x. m = Inr x \<Longrightarrow> f x \<noteq> Inl e) \<Longrightarrow> bind_res m f \<noteq> Inl e"
  by (cases m) (simp_all add: bind_res_def)

lemma match_number_returns: "match_number s \<noteq> Inl RecursionError"
  by (auto simp: match_number_def finish_number_def Let_def split: list.splits)

lemma bound_suffices:
  "(2 * length s + 1 \<le> n \<longrightarrow> scan_once n s \<noteq> Inl RecursionError)
   \<and> (2 * length s + 2 \<le> n \<longrightarrow> JSONArray n s \<noteq> Inl RecursionError)
   \<and> (2 * length s + 2 \<le> n \<longrightarrow> JSONObject n s \<noteq> Inl RecursionError)"
proof (induction n arbitrary: s)
  case 0
  then show ?case by simp
next
  case (Suc n)
  have ih1: "\<And>s. 2 * length s + 1 \<le> n \<Longrightarrow> scan_once n s \<noteq> Inl RecursionError"
    and ih2: "\<And>s. 2 * length s + 2 \<le> n \<Longrightarrow> JSONArray n s \<noteq> Inl RecursionError"
    and ih3: "\<And>s. 2 * length s + 2 \<le> n \<Longrightarrow> JSONObject n s \<noteq> Inl RecursionError"
    using Suc.IH by blast+
  have one: "scan_once (Suc n) s \<noteq> Inl RecursionError" if b: "2 * length s + 1 \<le> Suc n"
  proof (cases s)
    case Nil
    then show ?thesis by simp
  next
    case (Cons c cs)
    with b have n: "2 * length (skip_ws cs) + 2 \<le> n"
      using skip_ws_length [of cs] by simp
    have obj: "bind_res (JSONObject n (skip_ws cs)) (\<lambda>(pairs, rest). Inr (py_dict pairs, rest))
        \<noteq> Inl RecursionError"
      by (rule bind_res_not [OF ih3 [OF n]]) (simp add: case_prod_unfold)
    have arr: "bind_res (JSONArray n (skip_ws cs)) (\<lambda>(values, rest). Inr (PyList values, rest))
        \<noteq> Inl RecursionError"
      by (rule bind_res_not [OF ih2 [OF n]]) (simp add: case_prod_unfold)
    consider "c = 34" | "c = 123" | "c = 91" | "c \<noteq> 34" "c \<noteq> 123" "c \<noteq> 91" by blast
    then show ?thesis
    proof cases
      case 1
      then show ?thesis unfolding Cons by (simp split: option.splits)
    next
      case 2
      then show ?thesis unfolding Cons using obj by (simp add: Let_def)
    next
      case 3
      then show ?thesis unfolding Cons using arr by (simp add: Let_def)
    next
      case 4
      then show ?thesis unfolding Cons using match_number_returns [of "c # cs"] by simp
    qed
  qed
  have two: "JSONArray (Suc n) s \<noteq> Inl RecursionError" if b: "2 * length s + 2 \<le> Suc n"
  proof -
    from b have n: "2 * length s + 1 \<le> n" by simp
    have "bind_res (scan_once n s) (\<lambda>(val, rest).
       case skip_ws rest of
         [] \<Rightarrow> Inl JSONDecodeError
       | d # rest1 \<Rightarrow>
           (if d = 93 then Inr ([val], rest1)
            else if d = 44 then
              bind_res (JSONArray n (skip_ws rest1)) (\<lambda>(values, rest2). Inr (val # values, rest2))
            else Inl JSONDecodeError)) \<noteq> Inl RecursionError"
    proof (rule bind_res_not [OF ih1 [OF n]])
      fix x
      assume x: "scan_once n s = Inr x"
      obtain val rest where vr: "x = (val, rest)" by (cases x)
      have l: "length rest < length s"
        using scan_consumes [of n s val rest] x vr by simp
      show "(case x of (val, rest) \<Rightarrow>
         (case skip_ws rest of
            [] \<Rightarrow> Inl JSONDecodeError
          | d # rest1 \<Rightarrow>
              (if d = 93 then Inr ([val], rest1)
               else if d = 44 then
                 bind_res (JSONArray n (skip_ws rest1)) (\<lambda>(values, rest2). Inr (val # values, rest2))
               else Inl JSONDecodeError))) \<noteq> Inl RecursionError"
      proof (cases "skip_ws rest")
        case Nil
        then show ?thesis by (simp add: vr)
      next
        case (Cons d rest1)
        have "2 * length (skip_ws rest1) + 2 \<le> n"
          using skip_ws_Cons [OF Cons] skip_ws_length [of rest1] l n by simp
        from bind_res_not [OF ih2 [OF this], of "\<lambda>(values, rest2). Inr (val # values, rest2)"]
        have "bind_res (JSONArray n (skip_ws rest1)) (\<lambda>(values, rest2). Inr (val # values, rest2))
            \<noteq> Inl RecursionError"
          by (simp add: case_prod_unfold)
        then show ?thesis by (simp add: vr Cons)
      qed
    qed
    then show ?thesis by simp
  qed
  have three: "JSONObject (Suc n) s \<noteq> Inl RecursionError" if b: "2 * length s + 2 \<le> Suc n"
  proof (cases s)
    case Nil
    then show ?thesis by simp
  next
    case s: (Cons q s1)
    show ?thesis
    proof (cases "scanstring s1")
      case None
      then show ?thesis by (simp add: s)
    next
      case (Some kr)
      obtain key rest where kr: "kr = (key, rest)" by (cases kr)
      have l0: "length rest < length s1" using scanstring_shorter Some kr by blast
      show ?thesis
      proof (cases "skip_ws rest")
        case Nil
        then show ?thesis by (simp add: s Some kr)
      next
        case (Cons colon rest1)
        have l1: "length rest1 < length rest" by (rule skip_ws_Cons [OF Cons])
        have n: "2 * length (skip_ws rest1) + 1 \<le> n"
          using skip_ws_length [of rest1] l0 l1 b s by simp
        have "bind_res (scan_once n (skip_ws rest1)) (\<lambda>(val, rest2).
                       case skip_ws rest2 of
                         [] \<Rightarrow> Inl JSONDecodeError
                       | d # rest3 \<Rightarrow>
                           (if d = 125 then Inr ([(key, val)], rest3)
                            else if d = 44 then
                              bind_res (JSONObject n (skip_ws rest3))
                                (\<lambda>(pairs, rest4). Inr ((key, val) # pairs, rest4))
                            else Inl JSONDecodeError)) \<noteq> Inl RecursionError"
        proof (rule bind_res_not [OF ih1 [OF n]])
          fix x
          assume x: "scan_once n (skip_ws rest1) = Inr x"
          obtain val rest2 where vr: "x = (val, rest2)" by (cases x)
          have l2: "length rest2 < length (skip_ws rest1)"
            using scan_consumes [of n "skip_ws rest1" val rest2] x vr by simp
          show "(case x of (val, rest2) \<Rightarrow>
                       (case skip_ws rest2 of
                          [] \<Rightarrow> Inl JSONDecodeError
                        | d # rest3 \<Rightarrow>
                            (if d = 125 then Inr ([(key, val)], rest3)
                             else if d = 44 then
                               bind_res (JSONObject n (skip_ws rest3))
                                 (\<lambda>(pairs, rest4). Inr ((key, val) # pairs, rest4))
                             else Inl JSONDecodeError))) \<noteq> Inl RecursionError"
          proof (cases "skip_ws rest2")
            case Nil
            then show ?thesis by (simp add: vr)
          next
            case inner: (Cons d rest3)
            have "2 * length (skip_ws rest3) + 2 \<le> n"
              using skip_ws_Cons [OF inner] skip_ws_length [of rest3] skip_ws_length [of rest1]
                l0 l1 l2 b s by simp
            from bind_res_not [OF ih3 [OF this],
                of "\<lambda>(pairs, rest4). Inr ((key, val) # pairs, rest4)"]
            have "bind_res (JSONObject n (skip_ws rest3))
                (\<lambda>(pairs, rest4). Inr ((key, val) # pairs, rest4)) \<noteq> Inl RecursionError"
              by (simp add: case_prod_unfold)
            then show ?thesis by (simp add: vr inner)
          qed
        qed
        then show ?thesis by (simp add: s Some kr Cons)
      qed
    qed
  qed
  show ?case using one two three by blast
qed

lemma json_loads_returns: "json_loads s \<noteq> Inl RecursionError"
proof -
  have "2 * length (skip_ws s) + 1 \<le> 2 * length s + 2"
    using skip_ws_length [of s] by simp
  then have "scan_once (2 * length s + 2) (skip_ws s) \<noteq> Inl RecursionError"
    using bound_suffices by blast
  then show ?thesis
    unfolding json_loads_def by (rule bind_res_not) (simp add: case_prod_unfold)
qed

text \<open>
  The condition on texts is needed: a Python string can hold two surrogate code points side
  by side, which are written as two escapes and read back as one character.
\<close>

lemma surrogates_joined:
  "json_loads (encode (Atom (AStr [55357, 56832]))) = Inr (Atom (AStr [128512]))"
proof -
  let ?escapes = "[92, 117, 100, 56, 51, 100, 92, 117, 100, 101, 48, 48, 34]"
  have written: "encode (Atom (AStr [55357, 56832])) = 34 # ?escapes"
    by (simp add: encode_atom_def py_encode_basestring_ascii_def escape_char_def u_escape_def
        hex4_def hex_digit_def)
  have scanned: "scanstring ?escapes = Some ([128512], [])"
    by (simp add: scanstring.simps unicode_escape_def escape_u_def hex_value_def cons_char_def)
  have bound: "2 * length (34 # ?escapes) + 2 = Suc 29"
    by simp
  have value_read: "scan_once (Suc 29) (34 # ?escapes) = Inr (Atom (AStr [128512]), [])"
    by (simp only: scan_once.simps) (simp add: scanned)
  have start: "skip_ws (34 # ?escapes) = 34 # ?escapes"
    by (simp add: skip_ws_def is_ws_def)
  show ?thesis
    unfolding json_loads_def written bound start value_read
    by (simp add: skip_ws_def bind_res_def)
qed

end
